theory Spec2Isabelle
  imports Main
begin

section \<open>Characters and strings\<close>

text \<open>
  A JavaScript string is a sequence of UTF-16 code units. It is modelled as a HOL
  \<^typ>\<open>string\<close> whose characters are the code units \<open>0\<close> to \<open>255\<close>; \<open>charCode\<close> is
  \<open>charCodeAt\<close>. The character classes of the regular expressions are the ECMAScript
  ones restricted to that range: \<open>\s\<close> is tab, line feed, vertical tab, form feed,
  carriage return, space and no-break space; \<open>\w\<close> is \<open>[A-Za-z0-9_]\<close>; \<open>\d\<close> is
  \<open>[0-9]\<close>; \<open>.\<close> is every character but the line terminators. Text with code
  units above \<open>255\<close> is outside the model.
\<close>

definition charCode :: "char \<Rightarrow> nat" where
  "charCode c = of_char c"

definition is_eol :: "char \<Rightarrow> bool" where
  "is_eol ch \<longleftrightarrow> charCode ch = 13 \<or> charCode ch = 10"

definition is_space :: "char \<Rightarrow> bool" where
  "is_space c \<longleftrightarrow> charCode c \<in> set [9, 10, 11, 12, 13, 32, 160]"

definition is_digit :: "char \<Rightarrow> bool" where
  "is_digit c \<longleftrightarrow> 48 \<le> charCode c \<and> charCode c \<le> 57"

definition is_word :: "char \<Rightarrow> bool" where
  "is_word c \<longleftrightarrow>
     (65 \<le> charCode c \<and> charCode c \<le> 90) \<or> (97 \<le> charCode c \<and> charCode c \<le> 122)
     \<or> is_digit c \<or> charCode c = 95"

text \<open>\<open>substring\<close> and \<open>substr\<close> of \<open>String.prototype\<close>, on indices that are numbers.\<close>

definition substring :: "string \<Rightarrow> nat \<Rightarrow> nat \<Rightarrow> string" where
  "substring v a b = (let lo = min a b; hi = max a b in take (hi - lo) (drop lo v))"

definition substr :: "string \<Rightarrow> nat \<Rightarrow> string" where
  "substr v a = drop a v"

text \<open>Reading an array at an index: \<open>None\<close> is JavaScript's \<open>undefined\<close>.\<close>

definition at :: "'a list \<Rightarrow> nat \<Rightarrow> 'a option" where
  "at xs i = (if i < length xs then Some (xs ! i) else None)"

section \<open>Regular expressions\<close>

text \<open>
  The regular expressions of the source use literals, \<open>^\<close>, a character class under
  \<open>*\<close>, \<open>+\<close> or \<open>*?\<close>, sequence, alternation and capture groups. \<open>rmatch\<close> is the
  backtracking matcher: from a state (position, rest of the input, captures) it
  lists every way the expression matches, in the order in which the backtracking of
  ECMAScript tries them (a greedy quantifier longest first, a lazy one shortest
  first, the left alternative first), so that the head of the list is the match that
  \<open>RegExp.prototype.exec\<close> returns. \<open>search\<close> tries the start positions from left to
  right, as \<open>exec\<close> does for an expression without the sticky flag.
\<close>

datatype cls = Space | Word | Digit | AnyChar

fun in_cls :: "cls \<Rightarrow> char \<Rightarrow> bool" where
  "in_cls Space c = is_space c"
| "in_cls Word c = is_word c"
| "in_cls Digit c = is_digit c"
| "in_cls AnyChar c = (\<not> is_eol c)"

datatype regex =
    Str string
  | Bol
  | Star cls
  | Plus cls
  | LazyStar cls
  | Seq regex regex
  | Alt regex regex
  | Cap nat regex

type_synonym captures = "(nat \<times> string) list"
type_synonym mstate = "nat \<times> string \<times> captures"

fun rmatch :: "regex \<Rightarrow> mstate \<Rightarrow> mstate list" where
  "rmatch (Str s) (p, rest, caps) =
     (if take (length s) rest = s then [(p + length s, drop (length s) rest, caps)] else [])"
| "rmatch Bol (p, rest, caps) = (if p = 0 then [(p, rest, caps)] else [])"
| "rmatch (Star c) (p, rest, caps) =
     map (\<lambda>k. (p + k, drop k rest, caps)) (rev [0..<Suc (length (takeWhile (in_cls c) rest))])"
| "rmatch (Plus c) (p, rest, caps) =
     map (\<lambda>k. (p + k, drop k rest, caps)) (rev [1..<Suc (length (takeWhile (in_cls c) rest))])"
| "rmatch (LazyStar c) (p, rest, caps) =
     map (\<lambda>k. (p + k, drop k rest, caps)) [0..<Suc (length (takeWhile (in_cls c) rest))]"
| "rmatch (Seq r1 r2) st = concat (map (rmatch r2) (rmatch r1 st))"
| "rmatch (Alt r1 r2) st = rmatch r1 st @ rmatch r2 st"
| "rmatch (Cap i r) (p, rest, caps) =
     map (\<lambda>(p', rest', caps'). (p', rest', (i, take (p' - p) rest) # caps'))
         (rmatch r (p, rest, caps))"

fun search :: "regex \<Rightarrow> nat \<Rightarrow> string \<Rightarrow> mstate option" where
  "search r p [] = (case rmatch r (p, [], []) of m # _ \<Rightarrow> Some m | [] \<Rightarrow> None)"
| "search r p (c # cs) =
     (case rmatch r (p, c # cs, []) of m # _ \<Rightarrow> Some m | [] \<Rightarrow> search r (Suc p) cs)"

text \<open>
  \<open>str_match s r\<close> is \<open>s.match(r)\<close> for an expression without the global flag:
  \<open>None\<close> is \<open>null\<close>, and \<open>group m i\<close> is \<open>m[i]\<close> for a group that took part in the
  match (every group of the expressions below takes part in each of its matches).
\<close>

definition str_match :: "string \<Rightarrow> regex \<Rightarrow> captures option" where
  "str_match s r = map_option (\<lambda>(p, rest, caps). caps) (search r 0 s)"

definition group :: "captures \<Rightarrow> nat \<Rightarrow> string" where
  "group caps i = (case map_of caps i of Some s \<Rightarrow> s | None \<Rightarrow> [])"

fun seql :: "regex list \<Rightarrow> regex" where
  "seql [] = Str []"
| "seql [r] = r"
| "seql (r # rs) = Seq r (seql rs)"

text \<open>The expressions of the symbol provider, in the order of the source.\<close>

definition re_handler :: regex where
  \<comment> \<open>\<^verbatim>\<open>/^\s*(handler)\s+/\<close>\<close>
  "re_handler = seql [Bol, Star Space, Cap 1 (Str ''handler''), Plus Space]"

definition re_end_handler :: regex where
  \<comment> \<open>\<^verbatim>\<open>/^\s*end\s+handler\s*/\<close>\<close>
  "re_end_handler = seql [Bol, Star Space, Str ''end'', Plus Space, Str ''handler'', Star Space]"

definition re_private_handler :: regex where
  \<comment> \<open>\<^verbatim>\<open>/^\s*(private)\s+handler\s+[\w]+/\<close>\<close>
  "re_private_handler =
     seql [Bol, Star Space, Cap 1 (Str ''private''), Plus Space, Str ''handler'', Plus Space,
           Plus Word]"

definition re_end_handler_col0 :: regex where
  \<comment> \<open>\<^verbatim>\<open>/^end\s+handler\s*/\<close>\<close>
  "re_end_handler_col0 = seql [Bol, Str ''end'', Plus Space, Str ''handler'', Star Space]"

definition re_variable :: regex where
  \<comment> \<open>\<^verbatim>\<open>/(^\s*private\s*variable|^\s*variable)\s+[\w]+/\<close>\<close>
  "re_variable =
     seql [Cap 1 (Alt (seql [Bol, Star Space, Str ''private'', Star Space, Str ''variable''])
                      (seql [Bol, Star Space, Str ''variable''])),
           Plus Space, Plus Word]"

text \<open>The expression of the validation provider.\<close>

definition MatchExpression :: regex where
  \<comment> \<open>\<^verbatim>\<open>/(?:(?:Parse|Fatal) error): (.*)(?: in )(.*?)(?: on line )(\d+)/\<close>\<close>
  "MatchExpression =
     seql [seql [Alt (Str ''Parse'') (Str ''Fatal''), Str '' error''], Str '': '',
           Cap 1 (Star AnyChar), Str '' in '', Cap 2 (LazyStar AnyChar),
           Str '' on line '', Cap 3 (Plus Digit)]"

section \<open>The editor's interface\<close>

text \<open>
  The extension calls the editor through the \<open>vscode\<close> module. The parts it uses are
  modelled as the editor implements them. An exception is a value \<open>Inl e\<close> of
  \<open>error + 'a\<close>:
  \<^item> \<open>TextDocument.lineAt\<close> throws (\<open>Illegal value for `line`\<close>) for a line number
    outside \<open>0 .. lineCount - 1\<close>;
  \<^item> the constructor of \<open>Position\<close> throws for a negative line or character;
  \<^item> the constructor of \<open>Range\<close> orders its two positions;
  \<^item> the constructor of \<open>DocumentSymbol\<close> throws for a name that is falsy
    (\<open>name must not be falsy\<close>) and for a selection range outside the range;
  \<^item> the constructor of \<open>Diagnostic\<close> throws for a message that is falsy
    (\<open>message must be set\<close>), that is for the empty message.
  A document is the list of its lines (the editor splits the text at the line
  terminators, so a document has at least one line and the text \<open>"a\n"\<close> has the two
  lines \<open>a\<close> and the empty line).
\<close>

datatype error =
  IllegalLine | FalsyName | SelectionOutsideRange | IllegalArgument | MessageNotSet

definition and_then :: "error + 'a \<Rightarrow> ('a \<Rightarrow> error + 'b) \<Rightarrow> error + 'b" where
  "and_then m f = (case m of Inl e \<Rightarrow> Inl e | Inr x \<Rightarrow> f x)"

record Position =
  pos_line :: int
  pos_character :: int

record Range =
  range_start :: Position
  range_end :: Position

definition new_Position :: "int \<Rightarrow> int \<Rightarrow> error + Position" where
  "new_Position l c =
     (if l < 0 then Inl IllegalArgument
      else if c < 0 then Inl IllegalArgument
      else Inr \<lparr>pos_line = l, pos_character = c\<rparr>)"

definition isBefore :: "Position \<Rightarrow> Position \<Rightarrow> bool" where
  "isBefore a b =
     (if pos_line a < pos_line b then True
      else if pos_line b < pos_line a then False
      else pos_character a < pos_character b)"

definition new_Range :: "Position \<Rightarrow> Position \<Rightarrow> Range" where
  "new_Range a b =
     (if isBefore a b then \<lparr>range_start = a, range_end = b\<rparr>
      else \<lparr>range_start = b, range_end = a\<rparr>)"

definition new_Range4 :: "int \<Rightarrow> int \<Rightarrow> int \<Rightarrow> int \<Rightarrow> error + Range" where
  "new_Range4 startLine startColumn endLine endColumn =
     and_then (new_Position startLine startColumn) (\<lambda>a.
     and_then (new_Position endLine endColumn) (\<lambda>b. Inr (new_Range a b)))"

definition contains_position :: "Range \<Rightarrow> Position \<Rightarrow> bool" where
  "contains_position r p =
     (if isBefore p (range_start r) then False
      else if isBefore (range_end r) p then False
      else True)"

definition contains_range :: "Range \<Rightarrow> Range \<Rightarrow> bool" where
  "contains_range r r' \<longleftrightarrow>
     contains_position r (range_start r') \<and> contains_position r (range_end r')"

text \<open>\<open>span l c l' c'\<close> writes the range from line \<open>l\<close>, column \<open>c\<close> to line \<open>l'\<close>, column \<open>c'\<close>.\<close>

definition span :: "int \<Rightarrow> int \<Rightarrow> int \<Rightarrow> int \<Rightarrow> Range" where
  "span l c l' c' =
     \<lparr>range_start = \<lparr>pos_line = l, pos_character = c\<rparr>,
      range_end = \<lparr>pos_line = l', pos_character = c'\<rparr>\<rparr>"

datatype SymbolKind = Field | Method | Function | Property | String | Variable

datatype DocumentSymbol =
  DocumentSymbol (name: string) (detail: "string option") (kind: SymbolKind)
    (symbol_range: Range) (selectionRange: Range) (children: "DocumentSymbol list")

definition new_DocumentSymbol ::
  "string option \<Rightarrow> string option \<Rightarrow> SymbolKind \<Rightarrow> Range \<Rightarrow> Range \<Rightarrow> error + DocumentSymbol" where
  "new_DocumentSymbol nm dt k r sr =
     (case nm of
        None \<Rightarrow> Inl FalsyName
      | Some n \<Rightarrow>
          if n = [] then Inl FalsyName
          else if \<not> contains_range r sr then Inl SelectionOutsideRange
          else Inr (DocumentSymbol n dt k r sr []))"

text \<open>Assignments to the fields of a symbol, and \<open>children.push\<close>.\<close>

definition with_range :: "DocumentSymbol \<Rightarrow> Range \<Rightarrow> DocumentSymbol" where
  "with_range s r = DocumentSymbol (name s) (detail s) (kind s) r (selectionRange s) (children s)"

definition with_selectionRange :: "DocumentSymbol \<Rightarrow> Range \<Rightarrow> DocumentSymbol" where
  "with_selectionRange s r =
     DocumentSymbol (name s) (detail s) (kind s) (symbol_range s) r (children s)"

definition with_kind :: "DocumentSymbol \<Rightarrow> SymbolKind \<Rightarrow> DocumentSymbol" where
  "with_kind s k =
     DocumentSymbol (name s) (detail s) k (symbol_range s) (selectionRange s) (children s)"

definition with_name :: "DocumentSymbol \<Rightarrow> string \<Rightarrow> DocumentSymbol" where
  "with_name s n =
     DocumentSymbol n (detail s) (kind s) (symbol_range s) (selectionRange s) (children s)"

definition push_child :: "DocumentSymbol \<Rightarrow> DocumentSymbol \<Rightarrow> DocumentSymbol" where
  "push_child s c =
     DocumentSymbol (name s) (detail s) (kind s) (symbol_range s) (selectionRange s)
       (children s @ [c])"

record TextLine =
  line_text :: string
  line_range :: Range

type_synonym TextDocument = "string list"

definition lineCount :: "TextDocument \<Rightarrow> nat" where
  "lineCount document = length document"

definition lineAt :: "TextDocument \<Rightarrow> nat \<Rightarrow> error + TextLine" where
  "lineAt document i =
     (if i < lineCount document
      then Inr \<lparr>line_text = document ! i,
                line_range = span (int i) 0 (int i) (int (length (document ! i)))\<rparr>
      else Inl IllegalLine)"

section \<open>The symbol provider\<close>

text \<open>
  \<open>provideDocumentSymbols\<close> returns a promise. The body of the executor is modelled:
  \<open>Inr symbols\<close> is the promise resolved with \<open>symbols\<close>, \<open>Inl e\<close> is the promise
  rejected because the body threw \<open>e\<close>. The cancellation token is not read by the source.
\<close>

definition symbolkind_marker :: SymbolKind where "symbolkind_marker = Field"
definition symbolkind_private_handler :: SymbolKind where "symbolkind_private_handler = Method"
definition symbolkind_ftn :: SymbolKind where "symbolkind_ftn = Function"
definition symbolkind_public_handler :: SymbolKind where "symbolkind_public_handler = Method"
definition symbolkind_getprop :: SymbolKind where "symbolkind_getprop = Property"
definition symbolkind_setprop :: SymbolKind where "symbolkind_setprop = Property"
definition symbolkind_blockcomment :: SymbolKind where "symbolkind_blockcomment = String"
definition symbolkind_comment :: SymbolKind where "symbolkind_comment = String"
definition symbolkind_variable :: SymbolKind where "symbolkind_variable = Variable"

text \<open>
  \<open>replace_re\<close> is \<open>line.text.replace(re, " $1 ")\<close> for \<open>re\<close> the global expression that
  matches one \<open>=\<close> or one double quote. \<open>split_ws\<close> is \<open>split\<close> at the runs of white
  space (a run at the start or the end of the text leaves an empty string there),
  and \<open>tokenize\<close> filters the empty strings out.
\<close>

definition replace_re :: "string \<Rightarrow> string" where
  "replace_re s =
     concat (map (\<lambda>c. if c = CHR ''='' \<or> c = CHR 0x22 then [CHR '' '', c, CHR '' ''] else [c]) s)"

function split_ws :: "string \<Rightarrow> string \<Rightarrow> string list" where
  "split_ws cur [] = [cur]"
| "split_ws cur (c # cs) =
     (if is_space c then cur # split_ws [] (dropWhile is_space cs)
      else split_ws (cur @ [c]) cs)"
  by pat_completeness auto
termination
  by (relation "measure (\<lambda>(cur, s). length s)") (auto simp: le_imp_less_Suc length_dropWhile_le)

definition tokenize :: "string \<Rightarrow> string list" where
  "tokenize lineText = filter (\<lambda>el. el \<noteq> []) (split_ws [] lineText)"

text \<open>
  The variables of the executor that the loop reads and writes. \<open>nodes\<close> holds the one
  array \<open>symbols\<close> throughout (nothing is pushed to or popped from \<open>nodes\<close>), so
  \<open>nodes[nodes.length - 1].push(s)\<close> appends \<open>s\<close> to \<open>symbols\<close>.

  Symbols are values here and objects in the source. The two agree: an object is
  written only through \<open>handler_Symbol\<close> while \<open>inside_handler\<close> holds, or through
  \<open>localvar_Symbol\<close> before it is pushed; \<open>inside_handler\<close> is set together with a
  fresh object, and is cleared when the object is pushed to \<open>symbols\<close>. So no object
  is written after it has been pushed.
\<close>

record scan_state =
  symbols :: "DocumentSymbol list"
  handler_Symbol :: DocumentSymbol
  blockcomment_Symbol :: DocumentSymbol
  inside_handler :: bool
  inside_blockcomment :: bool

text \<open>The body shared by the two \<open>end handler\<close> branches.\<close>

definition close_handler :: "TextLine \<Rightarrow> scan_state \<Rightarrow> scan_state" where
  "close_handler line st =
     (if inside_handler st then
        (let r = new_Range (range_start (symbol_range (handler_Symbol st)))
                           (range_end (line_range line));
             h = with_selectionRange (with_range (handler_Symbol st) r) r
         in st\<lparr>handler_Symbol := h, symbols := symbols st @ [h], inside_handler := False\<rparr>)
      else st)"

text \<open>
  The first \<open>if\<close>/\<open>else if\<close>: a handler opens or closes. The assignment of \<open>tokens[1]\<close>
  to \<open>name\<close> comes after the constructor has checked the same value, so its \<open>None\<close>
  case is never reached.
\<close>

definition handler_branch ::
  "TextLine \<Rightarrow> string \<Rightarrow> string list \<Rightarrow> scan_state \<Rightarrow> error + scan_state" where
  "handler_branch line lineText tokens st =
     (if str_match lineText re_handler \<noteq> None then
        and_then (new_DocumentSymbol (at tokens 1) (at tokens 2) symbolkind_public_handler
                    (line_range line) (line_range line)) (\<lambda>h.
          (case at tokens 1 of
             None \<Rightarrow> Inl FalsyName
           | Some n \<Rightarrow>
               let h1 = with_kind h symbolkind_public_handler;
                   h2 = with_name h1 n;
                   h3 = with_range h2 (line_range line);
                   h4 = with_selectionRange h3 (line_range line);
                   h5 = with_range h4 (line_range line)
               in Inr (st\<lparr>handler_Symbol := h5, inside_handler := True\<rparr>)))
      else if str_match lineText re_end_handler \<noteq> None then Inr (close_handler line st)
      else Inr st)"

text \<open>The second \<open>if\<close>/\<open>else if\<close>: a private handler opens, or a handler closes.\<close>

definition private_branch ::
  "TextLine \<Rightarrow> string \<Rightarrow> string list \<Rightarrow> scan_state \<Rightarrow> error + scan_state" where
  "private_branch line lineText tokens st =
     (if str_match lineText re_private_handler \<noteq> None then
        and_then (new_DocumentSymbol (at tokens 2) (at tokens 3) symbolkind_private_handler
                    (line_range line) (line_range line)) (\<lambda>h.
          Inr (st\<lparr>handler_Symbol := h, inside_handler := True\<rparr>))
      else if str_match lineText re_end_handler_col0 \<noteq> None then Inr (close_handler line st)
      else Inr st)"

text \<open>
  The \<open>for ... in\<close> loop over the indices of \<open>tokens\<close>: \<open>continue\<close> is the call at the
  next index, \<open>break\<close> returns the state.
\<close>

function variables_loop ::
  "TextLine \<Rightarrow> string list \<Rightarrow> nat \<Rightarrow> bool \<Rightarrow> scan_state \<Rightarrow> error + scan_state" where
  "variables_loop line tokens index1 tInQuotes st =
     (if index1 < length tokens then
        (let tok = tokens ! index1;
             tInQuotes' = (if tok = [CHR 0x22] then \<not> tInQuotes else tInQuotes)
         in if tInQuotes' \<or> index1 = 0 \<or> tok = ''='' \<or> tok = [CHR 0x22]
               \<or> (0 < index1 \<and> at tokens (index1 - 1) = Some ''='') \<or> tok = '',''
            then variables_loop line tokens (Suc index1) tInQuotes' st
            else if tok = ''variable'' then variables_loop line tokens (Suc index1) tInQuotes' st
            else if tok = ''as'' then Inr st
            else and_then (new_DocumentSymbol (Some tok) (at tokens 0) symbolkind_variable
                             (line_range line) (line_range line)) (\<lambda>localvar_Symbol.
                   if inside_blockcomment st
                   then variables_loop line tokens (Suc index1) tInQuotes' st
                   else (let r = new_Range (range_start (symbol_range localvar_Symbol))
                                           (range_end (line_range line));
                             v = with_selectionRange (with_range localvar_Symbol r) r;
                             st' = (if inside_handler st
                                    then st\<lparr>handler_Symbol := push_child (handler_Symbol st) v\<rparr>
                                    else st\<lparr>symbols := symbols st @ [v]\<rparr>)
                         in variables_loop line tokens (Suc index1) tInQuotes' st')))
      else Inr st)"
  by pat_completeness auto
termination
  by (relation "measure (\<lambda>(line, tokens, index1, tInQuotes, st). length tokens - index1)") auto

declare variables_loop.simps [simp del]

definition variables_branch ::
  "TextLine \<Rightarrow> string \<Rightarrow> string list \<Rightarrow> scan_state \<Rightarrow> error + scan_state" where
  "variables_branch line lineText tokens st =
     (if str_match lineText re_variable \<noteq> None then variables_loop line tokens 0 False st
      else Inr st)"

text \<open>The body of the loop over the lines, and the loop.\<close>

definition scan_line :: "TextDocument \<Rightarrow> nat \<Rightarrow> scan_state \<Rightarrow> error + scan_state" where
  "scan_line document i st =
     and_then (lineAt document i) (\<lambda>line.
       let lineText = replace_re (line_text line);
           tokens = tokenize lineText
       in and_then (handler_branch line lineText tokens st) (\<lambda>st1.
          and_then (private_branch line lineText tokens st1) (\<lambda>st2.
            variables_branch line lineText tokens st2)))"

function scan_loop :: "TextDocument \<Rightarrow> nat \<Rightarrow> scan_state \<Rightarrow> error + scan_state" where
  "scan_loop document i st =
     (if i < lineCount document
      then and_then (scan_line document i st) (\<lambda>st'. scan_loop document (Suc i) st')
      else Inr st)"
  by pat_completeness auto
termination
  by (relation "measure (\<lambda>(document, i, st). lineCount document - i)") auto

declare scan_loop.simps [simp del]

definition initial_state :: "TextDocument \<Rightarrow> error + scan_state" where
  "initial_state document =
     and_then (lineAt document 1) (\<lambda>line.
     and_then (new_DocumentSymbol (Some ''start'') (Some ''start'') Method
                 (line_range line) (line_range line)) (\<lambda>h.
     and_then (new_DocumentSymbol (Some ''start'') (Some ''start'') Method
                 (line_range line) (line_range line)) (\<lambda>b.
       Inr \<lparr>symbols = [], handler_Symbol = h, blockcomment_Symbol = b,
            inside_handler = False, inside_blockcomment = False\<rparr>)))"

definition provideDocumentSymbols :: "TextDocument \<Rightarrow> error + DocumentSymbol list" where
  "provideDocumentSymbols document =
     and_then (initial_state document) (\<lambda>st0.
     and_then (scan_loop document 0 st0) (\<lambda>st. Inr (symbols st)))"

section \<open>The line decoder\<close>

text \<open>
  \<open>LineDecoder.write\<close> is modelled on the text that its \<open>StringDecoder\<close> returns for the
  buffer: a chunk is that text. \<open>remaining\<close> is \<open>None\<close> for \<open>null\<close>.
\<close>

record LineDecoder =
  remaining :: "string option"

definition new_LineDecoder :: LineDecoder where
  "new_LineDecoder = \<lparr>remaining = None\<rparr>"

text \<open>The two loops that step over a run of carriage returns and line feeds.\<close>

function skip_terminators :: "string \<Rightarrow> nat \<Rightarrow> nat" where
  "skip_terminators v i =
     (if i < length v \<and> is_eol (v ! i) then skip_terminators v (Suc i) else i)"
  by pat_completeness auto
termination
  by (relation "measure (\<lambda>(v, i). length v - i)") auto

declare skip_terminators.simps [simp del]

text \<open>The main loop of \<open>write\<close>; it returns \<open>result\<close> and \<open>start\<close>.\<close>

function write_loop :: "string \<Rightarrow> nat \<Rightarrow> nat \<Rightarrow> string list \<Rightarrow> string list \<times> nat" where
  "write_loop v start idx result =
     (if idx < length v then
        (if is_eol (v ! idx) then
           (let result' = result @ [substring v start idx];
                idx' = skip_terminators v (Suc idx)
            in write_loop v idx' idx' result')
         else write_loop v start (Suc idx) result)
      else (result, start))"
  by pat_completeness auto
termination
proof (relation "measure (\<lambda>(v, start, idx, result). length v - idx)")
  show "wf (measure (\<lambda>(v, start, idx, result). length v - idx))"
    by simp
next
  fix v :: string and start idx xa :: nat and result x :: "string list"
  assume lt: "idx < length v" and xa: "xa = skip_terminators v (Suc idx)"
  have "i \<le> skip_terminators w i" for w i
  proof (induction w i rule: skip_terminators.induct)
    case (1 w i)
    then show ?case by (subst skip_terminators.simps) auto
  qed
  then have "Suc idx \<le> xa"
    unfolding xa .
  with lt show "((v, xa, xa, x), v, start, idx, result)
                  \<in> measure (\<lambda>(v, start, idx, result). length v - idx)"
    by auto
next
  fix v :: string and start idx :: nat and result :: "string list"
  assume "idx < length v"
  then show "((v, start, Suc idx, result), v, start, idx, result)
               \<in> measure (\<lambda>(v, start, idx, result). length v - idx)"
    by auto
qed

declare write_loop.simps [simp del]

definition LineDecoder_write :: "LineDecoder \<Rightarrow> string \<Rightarrow> string list \<times> LineDecoder" where
  "LineDecoder_write this chunk =
    (let v = (case remaining this of
                Some r \<Rightarrow> if r \<noteq> [] then r @ chunk else chunk
              | None \<Rightarrow> chunk)
     in if length v < 1 then ([], this)
        else (let start = skip_terminators v 0;
                  (result, start') = write_loop v start start []
              in (result,
                  this\<lparr>remaining := (if start' < length v then Some (substr v start')
                                      else None)\<rparr>)))"

definition LineDecoder_end :: "LineDecoder \<Rightarrow> string option" where
  "LineDecoder_end this = remaining this"

text \<open>
  A stream of chunks written to a decoder in order, and the lines a new decoder gives
  for the stream: those of the writes, then the one of \<open>end\<close> when it is not \<open>null\<close>.
\<close>

fun write_all :: "LineDecoder \<Rightarrow> string list \<Rightarrow> string list \<times> LineDecoder" where
  "write_all d [] = ([], d)"
| "write_all d (chunk # chunks) =
     (let (ls, d') = LineDecoder_write d chunk;
          (ls', d'') = write_all d' chunks
      in (ls @ ls', d''))"

definition decoded_lines :: "string list \<Rightarrow> string list" where
  "decoded_lines chunks =
     (let (ls, d) = write_all new_LineDecoder chunks
      in ls @ (case LineDecoder_end d of None \<Rightarrow> [] | Some l \<Rightarrow> [l]))"

section \<open>The validation provider\<close>

text \<open>
  \<open>Number.MAX_VALUE\<close> is the integer \<open>(2^53 - 1) * 2^971\<close>. \<open>parseInt\<close> is applied by
  the source to the capture of a run of digits only; it is modelled on such
  strings, as the number the leading digits denote in base ten. The source computes
  in doubles: below \<open>2^53\<close> the two numbers are the same, and from there on the
  source has the double nearest to the number of the model. Both are 0 for the same
  strings.
\<close>

definition Number_MAX_VALUE :: int where
  "Number_MAX_VALUE = (2 ^ 53 - 1) * 2 ^ 971"

record Diagnostic =
  diag_range :: Range
  message :: string

definition new_Diagnostic :: "Range \<Rightarrow> string \<Rightarrow> error + Diagnostic" where
  "new_Diagnostic r m =
     (if m = [] then Inl MessageNotSet else Inr \<lparr>diag_range = r, message = m\<rparr>)"

definition parseInt :: "string \<Rightarrow> int" where
  "parseInt s = foldl (\<lambda>n c. 10 * n + (int (charCode c) - 48)) 0 (takeWhile is_digit s)"

text \<open>
  \<open>processLine\<close> pushes to the array \<open>diagnostics\<close> of the run; the array is passed
  and returned. \<open>Inl e\<close> is an exception that leaves \<open>processLine\<close>: the range is
  made first, then the diagnostic.
\<close>

definition processLine :: "string \<Rightarrow> Diagnostic list \<Rightarrow> error + Diagnostic list" where
  "processLine line diagnostics =
     (case str_match line MatchExpression of
        None \<Rightarrow> Inr diagnostics
      | Some matches \<Rightarrow>
          (let message = group matches 1;
               line' = parseInt (group matches 3) - 1
           in and_then (new_Range4 line' 0 line' Number_MAX_VALUE) (\<lambda>r.
              and_then (new_Diagnostic r message) (\<lambda>diagnostic.
                Inr (diagnostics @ [diagnostic])))))"

fun forEach_processLine :: "string list \<Rightarrow> Diagnostic list \<Rightarrow> error + Diagnostic list" where
  "forEach_processLine [] diagnostics = Inr diagnostics"
| "forEach_processLine (l # ls) diagnostics =
     and_then (processLine l diagnostics) (forEach_processLine ls)"

text \<open>
  The listeners of \<open>doValidate\<close> on the standard output of the checker: \<open>data\<close> for
  each chunk, then \<open>end\<close>, whose result is the array given to
  \<open>diagnosticCollection.set\<close>. The state is the decoder and the array. The model stops
  at the first exception that leaves a listener.
\<close>

definition stdout_on_data ::
  "LineDecoder \<times> Diagnostic list \<Rightarrow> string \<Rightarrow> error + LineDecoder \<times> Diagnostic list" where
  "stdout_on_data s data =
     (let (ls, decoder') = LineDecoder_write (fst s) data
      in and_then (forEach_processLine ls (snd s)) (\<lambda>diagnostics'. Inr (decoder', diagnostics')))"

definition stdout_on_end :: "LineDecoder \<times> Diagnostic list \<Rightarrow> error + Diagnostic list" where
  "stdout_on_end s =
     (case LineDecoder_end (fst s) of
        None \<Rightarrow> Inr (snd s)
      | Some line \<Rightarrow> if line \<noteq> [] then processLine line (snd s) else Inr (snd s))"

fun stdout_events ::
  "LineDecoder \<times> Diagnostic list \<Rightarrow> string list \<Rightarrow> error + Diagnostic list" where
  "stdout_events s [] = stdout_on_end s"
| "stdout_events s (data # rest) = and_then (stdout_on_data s data) (\<lambda>s'. stdout_events s' rest)"

definition collect_diagnostics :: "string list \<Rightarrow> error + Diagnostic list" where
  "collect_diagnostics chunks = stdout_events (new_LineDecoder, []) chunks"

text \<open>
  The configuration and the fields of the provider that decide whether a validation
  runs. \<open>executable\<close> is \<open>None\<close> for \<open>undefined\<close>; \<open>documentListener\<close> records the event
  the listener is subscribed to.
\<close>

datatype RunTrigger = onSave | onType

definition RunTrigger_from :: "string \<Rightarrow> RunTrigger" where
  "RunTrigger_from v = (if v = ''onType'' then onType else onSave)"

record ILivecodescriptConfig =
  executable :: "string option"
  executableIsUserDefined :: "bool option"
  trigger :: RunTrigger

record LivecodescriptValidationProvider =
  validationEnabled :: bool
  pauseValidation :: bool
  config :: "ILivecodescriptConfig option"
  documentListener :: "RunTrigger option"

definition new_LivecodescriptValidationProvider :: LivecodescriptValidationProvider where
  "new_LivecodescriptValidationProvider =
     \<lparr>validationEnabled = True, pauseValidation = False, config = None, documentListener = None\<rparr>"

text \<open>
  \<open>loadConfiguration\<close>, given what it reads from the settings: the value of
  \<open>livecodescript.validate.enable\<close> and the result of \<open>getConfig()\<close>.
\<close>

definition loadConfiguration ::
  "bool \<Rightarrow> ILivecodescriptConfig \<Rightarrow> LivecodescriptValidationProvider
     \<Rightarrow> LivecodescriptValidationProvider" where
  "loadConfiguration enable newConfig this =
     (let oldExecutable = (case config this of None \<Rightarrow> None | Some c \<Rightarrow> executable c);
          this1 = this\<lparr>validationEnabled := enable\<rparr>;
          this2 = this1\<lparr>config := Some newConfig\<rparr>;
          this3 = (if pauseValidation this2
                   then this2\<lparr>pauseValidation := (oldExecutable = executable newConfig)\<rparr>
                   else this2);
          this4 = this3\<lparr>documentListener := None\<rparr>
      in if validationEnabled this4
         then this4\<lparr>documentListener := Some (trigger newConfig)\<rparr>
         else this4)"

text \<open>
  \<open>triggerValidate\<close> after the configuration has loaded: whether it goes on to
  \<open>doValidate\<close> (through the delayer of the document) or returns.
\<close>

definition triggerValidate_proceeds ::
  "LivecodescriptValidationProvider \<Rightarrow> string \<Rightarrow> bool \<Rightarrow> bool" where
  "triggerValidate_proceeds this languageId isTrusted =
     (if languageId \<noteq> ''livecodescript'' \<or> pauseValidation this \<or> \<not> validationEnabled this
      then False
      else isTrusted)"

text \<open>
  The writes of \<open>doValidate\<close> to \<open>pauseValidation\<close>. With no executable it pauses.
  With an executable that is not an absolute path it returns. Otherwise it spawns the
  checker, and the \<open>error\<close> listener of the child process pauses when the spawn
  fails. Whether the path is absolute and whether the spawn fails are given.
  \<open>triggerValidate\<close> awaits the load of the configuration before it calls
  \<open>doValidate\<close>, so \<open>config\<close> is set there.
\<close>

datatype run_outcome = NotAbsolute | SpawnError | Spawned

definition doValidate ::
  "run_outcome \<Rightarrow> LivecodescriptValidationProvider \<Rightarrow> LivecodescriptValidationProvider" where
  "doValidate outcome this =
     (case config this of
        None \<Rightarrow> this
      | Some c \<Rightarrow>
          (case executable c of
             None \<Rightarrow> this\<lparr>pauseValidation := True\<rparr>
           | Some exe \<Rightarrow>
               if exe = [] then this\<lparr>pauseValidation := True\<rparr>
               else (case outcome of
                       NotAbsolute \<Rightarrow> this
                     | SpawnError \<Rightarrow>
                         if pauseValidation this then this
                         else this\<lparr>pauseValidation := True\<rparr>
                     | Spawned \<Rightarrow> this)))"

section \<open>Notions used to state the properties\<close>

text \<open>
  The lines of a text, read declaratively: \<open>lines_acc cur s\<close> adds the characters of
  \<open>s\<close> to the unfinished line \<open>cur\<close>, closes a line at each terminator and drops the
  empty ones; it returns the finished lines and the unfinished one.
  \<open>trailing_partial s\<close> is what follows the last terminator of \<open>s\<close>.
\<close>

fun lines_acc :: "string \<Rightarrow> string \<Rightarrow> string list \<times> string" where
  "lines_acc cur [] = ([], cur)"
| "lines_acc cur (c # cs) =
     (if is_eol c
      then (let (ls, r) = lines_acc [] cs in ((if cur = [] then ls else cur # ls), r))
      else lines_acc (cur @ [c]) cs)"

definition trailing_partial :: "string \<Rightarrow> string" where
  "trailing_partial s = rev (takeWhile (\<lambda>c. \<not> is_eol c) (rev s))"

definition pending :: "LineDecoder \<Rightarrow> string" where
  "pending d = (case remaining d of None \<Rightarrow> [] | Some r \<Rightarrow> r)"

definition decoder_inv :: "LineDecoder \<Rightarrow> bool" where
  "decoder_inv d \<longleftrightarrow> remaining d \<noteq> Some [] \<and> \<not> list_ex is_eol (pending d)"

definition keep :: "string \<Rightarrow> string option" where
  "keep r = (if r = [] then None else Some r)"

text \<open>
  What a regular expression accepts, read declaratively: \<open>accepts r p w\<close> holds when
  \<open>r\<close> matches the word \<open>w\<close> that starts at position \<open>p\<close> of the input.
\<close>

fun accepts :: "regex \<Rightarrow> nat \<Rightarrow> string \<Rightarrow> bool" where
  "accepts (Str s) p w = (w = s)"
| "accepts Bol p w = (w = [] \<and> p = 0)"
| "accepts (Star c) p w = list_all (in_cls c) w"
| "accepts (Plus c) p w = (w \<noteq> [] \<and> list_all (in_cls c) w)"
| "accepts (LazyStar c) p w = list_all (in_cls c) w"
| "accepts (Seq r1 r2) p w =
     (\<exists>w1 w2. w = w1 @ w2 \<and> accepts r1 p w1 \<and> accepts r2 (p + length w1) w2)"
| "accepts (Alt r1 r2) p w = (accepts r1 p w \<or> accepts r2 p w)"
| "accepts (Cap i r) p w = accepts r p w"

text \<open>
  The diagnostic shape \<open>(Parse error|Fatal error): <message> in <filename> on line <N>\<close>:
  \<open>diagnostic_shape w\<close> holds when \<open>w\<close> is of that shape from its first character to
  a last digit (message and file name are free of line terminators, \<open>N\<close> is a run of
  one digit or more); \<open>contains_diagnostic_shape l\<close> when such a \<open>w\<close> stands somewhere
  in \<open>l\<close>.
\<close>

definition diagnostic_shape :: "string \<Rightarrow> bool" where
  "diagnostic_shape w \<longleftrightarrow>
     (\<exists>kw msg file num.
        w = kw @ '' error: '' @ msg @ '' in '' @ file @ '' on line '' @ num
        \<and> (kw = ''Parse'' \<or> kw = ''Fatal'')
        \<and> list_all (\<lambda>c. \<not> is_eol c) msg \<and> list_all (\<lambda>c. \<not> is_eol c) file
        \<and> num \<noteq> [] \<and> list_all is_digit num)"

definition contains_diagnostic_shape :: "string \<Rightarrow> bool" where
  "contains_diagnostic_shape l \<longleftrightarrow> (\<exists>pre w post. l = pre @ w @ post \<and> diagnostic_shape w)"




text \<open>
  The conditions of the scanner on the text of a line: it opens a handler (public or
  private), it closes one (either of the two \<open>end handler\<close> expressions matches).
\<close>

definition opens_handler :: "string \<Rightarrow> bool" where
  "opens_handler l \<longleftrightarrow>
     str_match (replace_re l) re_handler \<noteq> None
     \<or> str_match (replace_re l) re_private_handler \<noteq> None"

definition ends_handler :: "string \<Rightarrow> bool" where
  "ends_handler l \<longleftrightarrow>
     str_match (replace_re l) re_end_handler \<noteq> None
     \<or> str_match (replace_re l) re_end_handler_col0 \<noteq> None"

text \<open>
  \<open>closed_handler_at document i j s\<close>: the symbol \<open>s\<close> spans a handler that line \<open>i\<close>
  opens and line \<open>j\<close> closes, with no line between them that opens or closes a
  handler; its range goes from the start of line \<open>i\<close> to the end of line \<open>j\<close>.
\<close>

definition closed_handler_at :: "TextDocument \<Rightarrow> nat \<Rightarrow> nat \<Rightarrow> DocumentSymbol \<Rightarrow> bool" where
  "closed_handler_at document i j s \<longleftrightarrow>
     i < j \<and> j < lineCount document
     \<and> opens_handler (document ! i) \<and> ends_handler (document ! j)
     \<and> (\<forall>m. i < m \<and> m < j \<longrightarrow> \<not> opens_handler (document ! m) \<and> \<not> ends_handler (document ! m))
     \<and> symbol_range s = span (int i) 0 (int j) (int (length (document ! j)))"

text \<open>
  The invariant of the loop over the lines, before line \<open>n\<close>: an open handler was
  opened by a line before \<open>n\<close> and no line since has opened or closed one; every
  symbol of the kind of a handler in \<open>symbols\<close> is a handler closed before line \<open>n\<close>.
\<close>

definition scan_inv :: "TextDocument \<Rightarrow> nat \<Rightarrow> scan_state \<Rightarrow> bool" where
  "scan_inv document n st \<longleftrightarrow>
     (inside_handler st \<longrightarrow>
        (\<exists>i<n. opens_handler (document ! i)
           \<and> symbol_range (handler_Symbol st)
               = span (int i) 0 (int i) (int (length (document ! i)))
           \<and> kind (handler_Symbol st) = Method
           \<and> (\<forall>m. i < m \<and> m < n \<longrightarrow>
                  \<not> opens_handler (document ! m) \<and> \<not> ends_handler (document ! m))))
     \<and> (\<forall>s \<in> set (symbols st). kind s = Method \<longrightarrow>
            (\<exists>i j. j < n \<and> closed_handler_at document i j s))"

section \<open>Properties of the line decoder\<close>

lemma skip_terminators_le: "i \<le> length v \<Longrightarrow> skip_terminators v i \<le> length v"
  by (induction v i rule: skip_terminators.induct) (subst skip_terminators.simps, auto)

lemma lines_acc_skip: "i \<le> length v \<Longrightarrow> lines_acc [] (drop (skip_terminators v i) v) = lines_acc [] (drop i v)"
proof (induction v i rule: skip_terminators.induct)
  case (1 v i)
  show ?case
  proof (cases "i < length v \<and> is_eol (v ! i)")
    case True
    then have d: "drop i v = v ! i # drop (Suc i) v"
      by (simp add: Cons_nth_drop_Suc)
    have "skip_terminators v i = skip_terminators v (Suc i)"
      using True by (subst skip_terminators.simps) simp
    then show ?thesis using 1 True d by (simp split: prod.splits)
  next
    case False
    then have "skip_terminators v i = i" by (subst skip_terminators.simps) auto
    then show ?thesis by simp
  qed
qed

lemma skip_terminators_stop: "i \<le> length v \<Longrightarrow> skip_terminators v i = length v \<or> \<not> is_eol (v ! skip_terminators v i)"
  by (induction v i rule: skip_terminators.induct) (subst (1 2) skip_terminators.simps, auto)

lemma write_loop_spec:
  assumes "start \<le> idx" "idx \<le> length v"
    and "start = idx \<longrightarrow> idx = length v \<or> \<not> is_eol (v ! idx)"
    and "lines_acc (substring v start idx) (drop idx v) = (ls, r)"
    and "write_loop v start idx result = (res', start')"
  shows "res' = result @ ls \<and> start' \<le> length v \<and> drop start' v = r"
  using assms
proof (induction v start idx result arbitrary: ls r rule: write_loop.induct)
  case (1 v start idx result)
  show ?case
  proof (cases "idx < length v")
    case False
    then have "write_loop v start idx result = (result, start)"
      by (subst write_loop.simps) simp
    with False 1(3-) show ?thesis
      by (auto simp: substring_def min_def max_def)
  next
    case lt: True
    then have d: "drop idx v = v ! idx # drop (Suc idx) v"
      by (simp add: Cons_nth_drop_Suc)
    show ?thesis
    proof (cases "is_eol (v ! idx)")
      case True
      define idx' where "idx' = skip_terminators v (Suc idx)"
      have ne: "substring v start idx \<noteq> []"
        using True 1(3,4,5) lt by (auto simp: substring_def min_def max_def)
      have idx'le: "idx' \<le> length v" unfolding idx'_def using lt by (intro skip_terminators_le) simp
      obtain ls2 r2 where l2: "lines_acc [] (drop (Suc idx) v) = (ls2, r2)" by force
      then have l2': "lines_acc (substring v idx' idx') (drop idx' v) = (ls2, r2)"
        using lines_acc_skip[of "Suc idx" v] lt by (simp add: idx'_def substring_def)
      have ls: "ls = substring v start idx # ls2" "r = r2"
        using 1(6) d True ne l2 by auto
      have sc: "write_loop v idx' idx' (result @ [substring v start idx]) = (res', start')"
        using 1(7) lt True by (subst (asm) write_loop.simps) (simp add: idx'_def Let_def)
      have stop: "idx' = idx' \<longrightarrow> idx' = length v \<or> \<not> is_eol (v ! idx')"
        using skip_terminators_stop[of "Suc idx" v] lt by (simp add: idx'_def)
      from 1(1)[OF lt True refl idx'_def[symmetric, THEN sym] _ idx'le stop l2' sc]
      show ?thesis using ls by simp
    next
      case False
      have "take (Suc (idx - start)) (drop start v) = take (idx - start) (drop start v) @ [drop start v ! (idx - start)]"
        using 1(3) lt by (intro take_Suc_conv_app_nth) simp
      then have sub: "substring v start (Suc idx) = substring v start idx @ [v ! idx]"
        using 1(3,4) lt by (simp add: substring_def min_def max_def Suc_diff_le)
      have l2: "lines_acc (substring v start (Suc idx)) (drop (Suc idx) v) = (ls, r)"
        using 1(6) d False sub by simp
      have sc: "write_loop v start (Suc idx) result = (res', start')"
        using 1(7) lt False by (subst (asm) write_loop.simps) simp
      from 1(2)[OF lt False _ _ _ l2 sc] 1(3) lt
      show ?thesis by simp
    qed
  qed
qed


lemma lines_acc_append:
  "lines_acc cur (a @ b) =
     (let (la, ra) = lines_acc cur a; (lb, rb) = lines_acc ra b in (la @ lb, rb))"
  by (induction a arbitrary: cur) (auto split: prod.splits)

lemma lines_acc_plain: "\<not> list_ex is_eol s \<Longrightarrow> lines_acc cur s = ([], cur @ s)"
  by (induction s arbitrary: cur) auto

lemma lines_acc_rest:
  "\<not> list_ex is_eol cur \<Longrightarrow> snd (lines_acc cur s) = trailing_partial (cur @ s)"
proof (induction s arbitrary: cur)
  case Nil
  then show ?case
    by (simp add: trailing_partial_def list_ex_iff takeWhile_eq_all_conv[THEN iffD2])
next
  case (Cons c cs)
  show ?case
  proof (cases "is_eol c")
    case True
    have "trailing_partial (cur @ c # cs) = trailing_partial cs"
      using True by (simp add: trailing_partial_def takeWhile_tail)
    moreover have "snd (lines_acc [] cs) = trailing_partial cs"
      using Cons.IH[of "[]"] by simp
    ultimately show ?thesis using True by (simp add: case_prod_beta)
  next
    case False
    then show ?thesis using Cons.IH[of "cur @ [c]"] Cons.prems by simp
  qed
qed

lemma lines_acc_nonempty: "[] \<notin> set (fst (lines_acc cur s))"
  by (induction s arbitrary: cur) (auto simp: case_prod_beta)

lemma lines_acc_concat:
  "concat (fst (lines_acc cur s)) @ snd (lines_acc cur s) = cur @ filter (\<lambda>c. \<not> is_eol c) s"
  by (induction s arbitrary: cur) (auto simp: case_prod_beta)

lemma trailing_partial_clean: "\<not> list_ex is_eol (trailing_partial s)"
  unfolding trailing_partial_def list_ex_iff by (auto dest: set_takeWhileD)

lemma write_spec:
  assumes "decoder_inv d"
  shows "LineDecoder_write d chunk =
           (fst (lines_acc (pending d) chunk),
            d\<lparr>remaining := keep (snd (lines_acc (pending d) chunk))\<rparr>)"
proof -
  define v where "v = pending d @ chunk"
  have v: "(case remaining d of Some r \<Rightarrow> if r \<noteq> [] then r @ chunk else chunk | None \<Rightarrow> chunk) = v"
    by (simp add: v_def pending_def split: option.splits)
  have la: "lines_acc [] v = lines_acc (pending d) chunk"
    using assms by (simp add: v_def lines_acc_append lines_acc_plain decoder_inv_def)
  show ?thesis
  proof (cases "v = []")
    case True
    then have "remaining d = None"
      using assms by (auto simp: v_def pending_def decoder_inv_def split: option.splits)
    then have "d\<lparr>remaining := None\<rparr> = d" by simp
    then show ?thesis
      using True la[symmetric] v unfolding LineDecoder_write_def
      by (simp add: keep_def)
  next
    case False
    define start where "start = skip_terminators v 0"
    obtain res start' where sc: "write_loop v start start [] = (res, start')" by force
    obtain ls r where l: "lines_acc [] v = (ls, r)" by force
    have "lines_acc (substring v start start) (drop start v) = (ls, r)"
      using lines_acc_skip[of 0 v] l by (simp add: start_def substring_def)
    moreover have "start \<le> length v" unfolding start_def by (intro skip_terminators_le) simp
    moreover have "start = start \<longrightarrow> start = length v \<or> \<not> is_eol (v ! start)"
      using skip_terminators_stop[of 0 v] by (simp add: start_def)
    ultimately have r: "res = ls" "start' \<le> length v" "drop start' v = r"
      using write_loop_spec[of start start v ls r "[]" res start'] sc by auto
    have "(if start' < length v then Some (substr v start') else None) = keep r"
      using r by (auto simp: keep_def substr_def)
    then show ?thesis
      using False v sc r(1) l la unfolding LineDecoder_write_def
      by (simp add: Let_def start_def[symmetric])
  qed
qed

lemma write_all_spec:
  "decoder_inv d \<Longrightarrow>
   write_all d chunks =
     (fst (lines_acc (pending d) (concat chunks)),
      d\<lparr>remaining := keep (snd (lines_acc (pending d) (concat chunks)))\<rparr>)"
proof (induction chunks arbitrary: d)
  case Nil
  then have "d\<lparr>remaining := keep (pending d)\<rparr> = d"
    by (cases "remaining d") (auto simp: keep_def pending_def decoder_inv_def)
  then show ?case by simp
next
  case (Cons chunk chunks)
  define d' where "d' = d\<lparr>remaining := keep (snd (lines_acc (pending d) chunk))\<rparr>"
  have p: "pending d' = snd (lines_acc (pending d) chunk)"
    by (simp add: d'_def pending_def keep_def)
  have "\<not> list_ex is_eol (pending d')"
    using Cons.prems lines_acc_rest[of "pending d" chunk] trailing_partial_clean
    by (simp add: p decoder_inv_def)
  then have inv: "decoder_inv d'"
    by (simp add: decoder_inv_def d'_def keep_def)
  show ?case
    using Cons.IH[OF inv] write_spec[OF Cons.prems, of chunk]
    by (simp add: d'_def[symmetric] p lines_acc_append split: prod.splits)
qed

lemma decoded_lines_spec:
  "decoded_lines chunks =
     fst (lines_acc [] (concat chunks)) @
     (case keep (snd (lines_acc [] (concat chunks))) of None \<Rightarrow> [] | Some l \<Rightarrow> [l])"
proof -
  have "decoder_inv new_LineDecoder"
    by (simp add: decoder_inv_def new_LineDecoder_def pending_def)
  from write_all_spec[OF this, of chunks] show ?thesis
    by (simp add: decoded_lines_def LineDecoder_end_def new_LineDecoder_def pending_def)
qed

text \<open>
  Claim C3. For every text and every way of cutting it into chunks, writing the chunks
  to a new decoder in order and then calling \<open>end\<close> gives the same sequence of lines as
  one write of the whole text. No line is empty, the lines are the text without its
  terminators (nothing is lost), and \<open>end\<close> returns what follows the last terminator,
  or \<open>null\<close> when nothing follows it.
\<close>

theorem LineDecoder_chunking:
  "decoded_lines chunks = decoded_lines [concat chunks]
   \<and> [] \<notin> set (decoded_lines chunks)
   \<and> concat (decoded_lines chunks) = filter (\<lambda>c. \<not> is_eol c) (concat chunks)
   \<and> LineDecoder_end (snd (write_all new_LineDecoder chunks))
       = (if trailing_partial (concat chunks) = [] then None
          else Some (trailing_partial (concat chunks)))"
proof -
  have inv: "decoder_inv new_LineDecoder"
    by (simp add: decoder_inv_def new_LineDecoder_def pending_def)
  have 1: "decoded_lines chunks = decoded_lines [concat chunks]"
    by (simp add: decoded_lines_spec)
  have 2: "[] \<notin> set (decoded_lines chunks)"
    using lines_acc_nonempty[of "[]" "concat chunks"]
    by (auto simp: decoded_lines_spec keep_def)
  have 3: "concat (decoded_lines chunks) = filter (\<lambda>c. \<not> is_eol c) (concat chunks)"
    using lines_acc_concat[of "[]" "concat chunks"]
    by (auto simp: decoded_lines_spec keep_def)
  have 4: "LineDecoder_end (snd (write_all new_LineDecoder chunks))
       = (if trailing_partial (concat chunks) = [] then None
          else Some (trailing_partial (concat chunks)))"
  proof -
    have pn: "pending new_LineDecoder = []"
      by (simp add: new_LineDecoder_def pending_def)
    show ?thesis
      using lines_acc_rest[of "[]" "concat chunks"]
      by (simp add: write_all_spec[OF inv] LineDecoder_end_def pn keep_def)
  qed
  from 1 2 3 4 show ?thesis by blast
qed


section \<open>Properties of the symbol provider on given documents\<close>

text \<open>
  Claim C1, on the code. The text \<open>"variable a, b, c\n"\<close> is the document of the two
  lines \<open>variable a, b, c\<close> and the empty line. The scanner resolves with three
  top-level symbols of kind \<open>Variable\<close>, but their names are \<open>a,\<close> and \<open>b,\<close> and \<open>c\<close>: the
  tokens are cut at white space only, so the commas stay in the names. Without the
  final line terminator the document has one line and the promise is rejected.
\<close>

theorem variable_list_names_keep_commas:
  "tokenize (replace_re ''variable a, b, c'') = [''variable'', ''a,'', ''b,'', ''c'']
   \<and> provideDocumentSymbols [''variable a, b, c'', []] =
       Inr [DocumentSymbol ''a,'' (Some ''variable'') Variable (span 0 0 0 16) (span 0 0 0 16) [],
            DocumentSymbol ''b,'' (Some ''variable'') Variable (span 0 0 0 16) (span 0 0 0 16) [],
            DocumentSymbol ''c'' (Some ''variable'') Variable (span 0 0 0 16) (span 0 0 0 16) []]
   \<and> provideDocumentSymbols [''variable a, b, c''] = Inl IllegalLine"
  by code_simp

text \<open>
  Claim C2, on the code. The executor reads line 1 of the document before the loop.
  An empty document has the one line 0, and so has every document without a line
  terminator: the read throws and the promise is rejected, also for a document whose
  only line declares a handler.
\<close>

theorem one_line_document_rejects:
  "provideDocumentSymbols [[]] = Inl IllegalLine
   \<and> provideDocumentSymbols [''handler foo''] = Inl IllegalLine
   \<and> initial_state [''end handler''] = Inl IllegalLine"
  by code_simp

text \<open>
  Claim C5, on the code. The line \<open>handler \<close> (the keyword and a space) matches the
  pattern of a handler and has the one token \<open>handler\<close>. The read of \<open>tokens[1]\<close> is not
  guarded: it gives \<open>undefined\<close>, the constructor of the symbol throws on it, and the
  promise is rejected.
\<close>

theorem handler_without_name_rejects:
  "str_match (replace_re ''handler '') re_handler \<noteq> None
   \<and> tokenize (replace_re ''handler '') = [''handler'']
   \<and> at (tokenize (replace_re ''handler '')) 1 = None
   \<and> provideDocumentSymbols [''handler '', ''end handler''] = Inl FalsyName"
  by code_simp

text \<open>
  Claim C7. For the document of the three lines \<open>handler foo\<close>, \<open>variable x\<close> and
  \<open>end handler\<close> (and for the same text with a final line terminator) the scanner
  resolves with exactly one top-level symbol: the handler \<open>foo\<close>, of the kind of a
  handler, whose range goes from the start of line 0 to the end of line 2, with
  exactly one child, the variable \<open>x\<close> on line 1.
\<close>

theorem handler_with_variable_child:
  "provideDocumentSymbols [''handler foo'', ''variable x'', ''end handler''] =
     Inr [DocumentSymbol ''foo'' None symbolkind_public_handler (span 0 0 2 11) (span 0 0 2 11)
            [DocumentSymbol ''x'' (Some ''variable'') symbolkind_variable
               (span 1 0 1 10) (span 1 0 1 10) []]]
   \<and> provideDocumentSymbols [''handler foo'', ''variable x'', ''end handler'', []] =
     Inr [DocumentSymbol ''foo'' None symbolkind_public_handler (span 0 0 2 11) (span 0 0 2 11)
            [DocumentSymbol ''x'' (Some ''variable'') symbolkind_variable
               (span 1 0 1 10) (span 1 0 1 10) []]]"
  by code_simp


section \<open>The matcher and what an expression accepts\<close>

lemma take_le_takeWhile:
  "k \<le> length (takeWhile P xs) \<Longrightarrow> take k xs = take k (takeWhile P xs)"
proof -
  assume k: "k \<le> length (takeWhile P xs)"
  have "take k xs = take k (takeWhile P xs @ dropWhile P xs)" by simp
  also have "\<dots> = take k (takeWhile P xs)" using k by (simp del: takeWhile_dropWhile_id)
  finally show ?thesis .
qed

lemma take_in_cls:
  "k \<le> length (takeWhile P xs) \<Longrightarrow> list_all P (take k xs)"
  using take_le_takeWhile[of k P xs]
  by (auto simp: list_all_iff dest!: in_set_takeD set_takeWhileD)

lemma rmatch_sound:
  "(p', rest', caps') \<in> set (rmatch r (p, rest, caps)) \<Longrightarrow>
     \<exists>w. rest = w @ rest' \<and> p' = p + length w \<and> accepts r p w"
proof (induction r arbitrary: p rest caps p' rest' caps')
  case (Str s)
  then show ?case
    by (auto split: if_splits) (metis append_take_drop_id)
next
  case Bol
  then show ?case by (auto split: if_splits)
next
  case (Star c)
  then obtain k where k: "k \<le> length (takeWhile (in_cls c) rest)" "p' = p + k" "rest' = drop k rest"
    by auto
  then have "rest = take k rest @ rest'" "p' = p + length (take k rest)"
    using length_takeWhile_le[of "in_cls c" rest] by auto
  with take_in_cls[OF k(1)] show ?case
    by (intro exI[of _ "take k rest"]) simp
next
  case (Plus c)
  then obtain k where k: "1 \<le> k" "k \<le> length (takeWhile (in_cls c) rest)" "p' = p + k" "rest' = drop k rest"
    by auto
  then have "rest = take k rest @ rest'" "p' = p + length (take k rest)" "take k rest \<noteq> []"
    using length_takeWhile_le[of "in_cls c" rest] by auto
  with take_in_cls[OF k(2)] show ?case
    by (intro exI[of _ "take k rest"]) simp
next
  case (LazyStar c)
  then obtain k where k: "k \<le> length (takeWhile (in_cls c) rest)" "p' = p + k" "rest' = drop k rest"
    by auto
  then have "rest = take k rest @ rest'" "p' = p + length (take k rest)"
    using length_takeWhile_le[of "in_cls c" rest] by auto
  with take_in_cls[OF k(1)] show ?case
    by (intro exI[of _ "take k rest"]) simp
next
  case (Seq r1 r2)
  from Seq.prems obtain q mid mcaps where
    m1: "(q, mid, mcaps) \<in> set (rmatch r1 (p, rest, caps))" and
    m2: "(p', rest', caps') \<in> set (rmatch r2 (q, mid, mcaps))"
    by auto
  from Seq.IH(1)[OF m1] obtain w1 where w1: "rest = w1 @ mid" "q = p + length w1" "accepts r1 p w1"
    by blast
  from Seq.IH(2)[OF m2] obtain w2 where w2: "mid = w2 @ rest'" "p' = q + length w2" "accepts r2 q w2"
    by blast
  from w1 w2 show ?case
    by (intro exI[of _ "w1 @ w2"]) auto
next
  case (Alt r1 r2)
  from Alt.prems have "(p', rest', caps') \<in> set (rmatch r1 (p, rest, caps))
      \<or> (p', rest', caps') \<in> set (rmatch r2 (p, rest, caps))"
    by simp
  then show ?case
    using Alt.IH(1)[of p' rest' caps' p rest caps] Alt.IH(2)[of p' rest' caps' p rest caps]
    by auto
next
  case (Cap i r)
  from Cap.prems obtain c0 where "(p', rest', c0) \<in> set (rmatch r (p, rest, caps))"
    by auto
  from Cap.IH[OF this] show ?case by simp
qed

lemma rmatch_complete:
  "accepts r p w \<Longrightarrow> \<exists>caps'. (p + length w, rest', caps') \<in> set (rmatch r (p, w @ rest', caps))"
proof (induction r arbitrary: p w rest' caps)
  case (Str s)
  then show ?case by auto
next
  case Bol
  then show ?case by auto
next
  case (Star c)
  then have "takeWhile (in_cls c) (w @ rest') = w @ takeWhile (in_cls c) rest'"
    by (simp add: list_all_iff)
  then have "length w \<in> set (rev [0..<Suc (length (takeWhile (in_cls c) (w @ rest')))])"
    by simp
  then have "(p + length w, drop (length w) (w @ rest'), caps) \<in> set (rmatch (Star c) (p, w @ rest', caps))"
    unfolding rmatch.simps set_map by (rule imageI)
  then show ?case by auto
next
  case (Plus c)
  then have "takeWhile (in_cls c) (w @ rest') = w @ takeWhile (in_cls c) rest'" "w \<noteq> []"
    by (simp_all add: list_all_iff)
  then have "1 \<le> length w" "length w < Suc (length (takeWhile (in_cls c) (w @ rest')))"
    by (simp_all add: Suc_le_eq)
  then have "length w \<in> set (rev [1..<Suc (length (takeWhile (in_cls c) (w @ rest')))])"
    unfolding set_rev set_upt by simp
  then have "(p + length w, drop (length w) (w @ rest'), caps) \<in> set (rmatch (Plus c) (p, w @ rest', caps))"
    unfolding rmatch.simps set_map by (rule imageI)
  then show ?case by auto
next
  case (LazyStar c)
  then have "takeWhile (in_cls c) (w @ rest') = w @ takeWhile (in_cls c) rest'"
    by (simp add: list_all_iff)
  then have "length w \<in> set [0..<Suc (length (takeWhile (in_cls c) (w @ rest')))]"
    by simp
  then have "(p + length w, drop (length w) (w @ rest'), caps) \<in> set (rmatch (LazyStar c) (p, w @ rest', caps))"
    unfolding rmatch.simps set_map by (rule imageI)
  then show ?case by auto
next
  case (Seq r1 r2)
  then obtain w1 w2 where w: "w = w1 @ w2" "accepts r1 p w1" "accepts r2 (p + length w1) w2"
    by auto
  from Seq.IH(1)[OF w(2), of "w2 @ rest'" caps] obtain c1 where
    c1: "(p + length w1, w2 @ rest', c1) \<in> set (rmatch r1 (p, w1 @ w2 @ rest', caps))" by blast
  from Seq.IH(2)[OF w(3), of rest' c1] obtain c2 where
    c2: "(p + length w1 + length w2, rest', c2) \<in> set (rmatch r2 (p + length w1, w2 @ rest', c1))" by blast
  from c1 c2 show ?case
    unfolding w(1) by (auto simp: add.assoc intro!: exI[of _ c2] bexI[OF _ c1])
next
  case (Alt r1 r2)
  then show ?case by (auto dest: Alt.IH(1) Alt.IH(2)) 
next
  case (Cap i r)
  from Cap.IH[OF Cap.prems[simplified], of rest' caps] obtain c0 where
    c0: "(p + length w, rest', c0) \<in> set (rmatch r (p, w @ rest', caps))" by blast
  have "(p + length w, rest', (i, take (p + length w - p) (w @ rest')) # c0)
          \<in> set (rmatch (Cap i r) (p, w @ rest', caps))"
    unfolding rmatch.simps set_map using c0 by (rule rev_image_eqI) simp
  then show ?case by blast
qed


lemma search_iff:
  "search r p s \<noteq> None \<longleftrightarrow> (\<exists>k\<le>length s. rmatch r (p + k, drop k s, []) \<noteq> [])"
proof (induction s arbitrary: p)
  case Nil
  then show ?case by (simp split: list.splits)
next
  case (Cons c cs)
  show ?case
  proof (cases "rmatch r (p, c # cs, [])")
    case Nil
    have "(\<exists>k\<le>length (c # cs). rmatch r (p + k, drop k (c # cs), []) \<noteq> [])
          \<longleftrightarrow> (\<exists>k\<le>length cs. rmatch r (Suc p + k, drop k cs, []) \<noteq> [])"
    proof
      assume "\<exists>k\<le>length (c # cs). rmatch r (p + k, drop k (c # cs), []) \<noteq> []"
      then obtain k where k: "k \<le> length (c # cs)" "rmatch r (p + k, drop k (c # cs), []) \<noteq> []"
        by blast
      with Nil obtain k' where "k = Suc k'" by (cases k) auto
      with k show "\<exists>k\<le>length cs. rmatch r (Suc p + k, drop k cs, []) \<noteq> []"
        by (intro exI[of _ k']) simp
    next
      assume "\<exists>k\<le>length cs. rmatch r (Suc p + k, drop k cs, []) \<noteq> []"
      then obtain k where "k \<le> length cs" "rmatch r (Suc p + k, drop k cs, []) \<noteq> []"
        by blast
      then show "\<exists>k\<le>length (c # cs). rmatch r (p + k, drop k (c # cs), []) \<noteq> []"
        by (intro exI[of _ "Suc k"]) simp
    qed
    with Nil Cons.IH[of "Suc p"] show ?thesis by simp
  next
    case (Cons m ms)
    then have "rmatch r (p + 0, drop 0 (c # cs), []) \<noteq> []" by simp
    then have "\<exists>k\<le>length (c # cs). rmatch r (p + k, drop k (c # cs), []) \<noteq> []"
      by blast
    with Cons show ?thesis by simp
  qed
qed

lemma str_match_iff:
  "str_match s r \<noteq> None \<longleftrightarrow> (\<exists>pre w post. s = pre @ w @ post \<and> accepts r (length pre) w)"
proof
  assume "str_match s r \<noteq> None"
  then obtain k where k: "k \<le> length s" "rmatch r (0 + k, drop k s, []) \<noteq> []"
    unfolding str_match_def using search_iff[of r 0 s] by auto
  then obtain p' rest' caps' where "(p', rest', caps') \<in> set (rmatch r (k, drop k s, []))"
    by (cases "rmatch r (k, drop k s, [])") auto
  from rmatch_sound[OF this] obtain w where w: "drop k s = w @ rest'" "accepts r k w"
    by blast
  have "take k s @ drop k s = s"
    by simp
  then have "s = take k s @ w @ rest'"
    unfolding w(1) by (rule sym)
  moreover have "accepts r (length (take k s)) w"
    using w(2) k(1) by simp
  ultimately show "\<exists>pre w post. s = pre @ w @ post \<and> accepts r (length pre) w"
    by blast
next
  assume "\<exists>pre w post. s = pre @ w @ post \<and> accepts r (length pre) w"
  then obtain pre w post where s: "s = pre @ w @ post" and a: "accepts r (length pre) w"
    by blast
  from rmatch_complete[OF a, of post "[]"] have "rmatch r (length pre, w @ post, []) \<noteq> []"
    by auto
  then have "rmatch r (0 + length pre, drop (length pre) s, []) \<noteq> []"
    by (simp add: s)
  moreover have "length pre \<le> length s" by (simp add: s)
  ultimately have "search r 0 s \<noteq> None"
    using search_iff[of r 0 s] by blast
  then show "str_match s r \<noteq> None" by (simp add: str_match_def)
qed

lemma accepts_SeqI:
  "accepts r1 p w1 \<Longrightarrow> accepts r2 (p + length w1) w2 \<Longrightarrow> accepts (Seq r1 r2) p (w1 @ w2)"
  by auto

lemma accepts_MatchExpression: "accepts MatchExpression p w \<longleftrightarrow> diagnostic_shape w"
proof
  assume "accepts MatchExpression p w"
  then obtain kw msg fname num where
    "w = (kw @ '' error'') @ '': '' @ msg @ '' in '' @ fname @ '' on line '' @ num"
    "kw = ''Parse'' \<or> kw = ''Fatal''"
    "list_all (in_cls AnyChar) msg" "list_all (in_cls AnyChar) fname"
    "num \<noteq> []" "list_all (in_cls Digit) num"
    unfolding MatchExpression_def seql.simps accepts.simps by blast
  then show "diagnostic_shape w"
    unfolding diagnostic_shape_def
    by (intro exI[of _ kw] exI[of _ msg] exI[of _ fname] exI[of _ num]) (simp add: list_all_iff)
next
  assume "diagnostic_shape w"
  then obtain kw msg fname num where
    w: "w = (kw @ '' error'') @ '': '' @ msg @ '' in '' @ fname @ '' on line '' @ num" and
    f: "kw = ''Parse'' \<or> kw = ''Fatal''"
    "list_all (in_cls AnyChar) msg" "list_all (in_cls AnyChar) fname"
    "num \<noteq> []" "list_all (in_cls Digit) num"
    unfolding diagnostic_shape_def by (auto simp: list_all_iff)
  show "accepts MatchExpression p w"
    unfolding MatchExpression_def seql.simps w
    by (intro accepts_SeqI) (use f in simp_all)
qed


lemma str_match_MatchExpression:
  "str_match l MatchExpression \<noteq> None \<longleftrightarrow> contains_diagnostic_shape l"
  unfolding str_match_iff accepts_MatchExpression contains_diagnostic_shape_def by (rule refl)

section \<open>Properties of the validation provider\<close>


lemma digits_nonneg:
  "0 \<le> n \<Longrightarrow> list_all is_digit cs \<Longrightarrow>
   0 \<le> foldl (\<lambda>n c. 10 * n + (int (charCode c) - 48)) n cs"
  by (induction cs arbitrary: n) (auto simp: is_digit_def)

lemma parseInt_nonneg: "0 \<le> parseInt s"
  unfolding parseInt_def
  by (intro digits_nonneg) (auto simp: list_all_iff dest: set_takeWhileD)

















text \<open>
  A line in which the shape stands somewhere need not yield a diagnostic: with an empty
  message the constructor of \<open>Diagnostic\<close> throws, and with a captured number that
  reads as 0 the constructor of \<open>Position\<close> throws for line \<open>-1\<close>. In the second
  line below the shape also stands with the number 5, but the greedy \<open>(.*)\<close> makes the
  expression capture the last occurrence.
\<close>

lemma shape_without_diagnostic:
  "contains_diagnostic_shape ''Parse error:  in f.lc on line 3''
   \<and> processLine ''Parse error:  in f.lc on line 3'' [] = Inl MessageNotSet
   \<and> contains_diagnostic_shape ''Parse error: a in b on line 5 in c on line 0''
   \<and> processLine ''Parse error: a in b on line 5 in c on line 0'' [] = Inl IllegalArgument"
proof -
  have 1: "processLine ''Parse error:  in f.lc on line 3'' [] = Inl MessageNotSet"
    by code_simp
  have 2: "processLine ''Parse error: a in b on line 5 in c on line 0'' [] = Inl IllegalArgument"
    by code_simp
  have "str_match ''Parse error:  in f.lc on line 3'' MatchExpression \<noteq> None"
    "str_match ''Parse error: a in b on line 5 in c on line 0'' MatchExpression \<noteq> None"
    by code_simp+
  with 1 2 show ?thesis
    unfolding str_match_MatchExpression by simp
qed


lemma forEach_processLine_append:
  "forEach_processLine (a @ b) ds = and_then (forEach_processLine a ds) (forEach_processLine b)"
  by (induction a arbitrary: ds) (auto simp: and_then_def split: sum.splits)

lemma stdout_events_spec:
  "stdout_events (d, ds) chunks =
     and_then (forEach_processLine (fst (write_all d chunks)) ds)
       (\<lambda>ds'. stdout_on_end (snd (write_all d chunks), ds'))"
proof (induction chunks arbitrary: d ds)
  case Nil
  then show ?case by (simp add: and_then_def)
next
  case (Cons chunk chunks)
  show ?case
    by (simp add: stdout_on_data_def Cons.IH forEach_processLine_append and_then_def
        case_prod_beta Let_def split: sum.splits)
qed

lemma collect_diagnostics_spec:
  "collect_diagnostics chunks =
     forEach_processLine
       (fst (lines_acc [] (concat chunks)) @
        (case keep (snd (lines_acc [] (concat chunks))) of None \<Rightarrow> [] | Some l \<Rightarrow> [l])) []"
proof -
  have inv: "decoder_inv new_LineDecoder"
    by (simp add: decoder_inv_def new_LineDecoder_def pending_def)
  have pn: "pending new_LineDecoder = []"
    by (simp add: new_LineDecoder_def pending_def)
  show ?thesis
    unfolding collect_diagnostics_def stdout_events_spec write_all_spec[OF inv] pn
    by (simp add: forEach_processLine_append stdout_on_end_def LineDecoder_end_def keep_def
        and_then_def split: sum.splits)
qed

text \<open>
  Claim C4. When the standard output of the checker is the line
  \<open>Parse error: bad token in test.lc on line 5\<close>, with or without its line feed and
  however it is cut into chunks, the array given to the diagnostic collection holds
  exactly one diagnostic: its message is \<open>bad token\<close>, and its range starts at line 4,
  column 0 (line 5 of the output, counted from 0) and ends on line 4.
\<close>

theorem parse_error_line_gives_one_diagnostic:
  assumes "concat chunks = ''Parse error: bad token in test.lc on line 5'' @ [CHR 0x0A]
           \<or> concat chunks = ''Parse error: bad token in test.lc on line 5''"
  shows "collect_diagnostics chunks =
           Inr [\<lparr>diag_range = span 4 0 4 Number_MAX_VALUE, message = ''bad token''\<rparr>]"
proof -
  have 1: "lines_acc [] (''Parse error: bad token in test.lc on line 5'' @ [CHR 0x0A])
           = ([''Parse error: bad token in test.lc on line 5''], [])"
    by code_simp
  have 2: "lines_acc [] ''Parse error: bad token in test.lc on line 5''
           = ([], ''Parse error: bad token in test.lc on line 5'')"
    by code_simp
  have 3: "processLine ''Parse error: bad token in test.lc on line 5'' []
           = Inr [\<lparr>diag_range = span 4 0 4 Number_MAX_VALUE, message = ''bad token''\<rparr>]"
    by code_simp
  from assms show ?thesis
  proof
    assume "concat chunks = ''Parse error: bad token in test.lc on line 5'' @ [CHR 0x0A]"
    then show ?thesis
      unfolding collect_diagnostics_spec by (simp only: 1 fst_conv snd_conv keep_def) (simp add: 3 and_then_def)
  next
    assume "concat chunks = ''Parse error: bad token in test.lc on line 5''"
    then show ?thesis
      unfolding collect_diagnostics_spec by (simp only: 2 fst_conv snd_conv keep_def) (simp add: 3 and_then_def)
  qed
qed

theorem parse_error_line_witness:
  "concat [''Parse error: bad tok'', ''en in test.lc on line 5'' @ [CHR 0x0A]]
     = ''Parse error: bad token in test.lc on line 5'' @ [CHR 0x0A]
   \<and> collect_diagnostics [''Parse error: bad tok'', ''en in test.lc on line 5'' @ [CHR 0x0A]] =
           Inr [\<lparr>diag_range = span 4 0 4 Number_MAX_VALUE, message = ''bad token''\<rparr>]"
  using parse_error_line_gives_one_diagnostic
          [of "[''Parse error: bad tok'', ''en in test.lc on line 5'' @ [CHR 0x0A]]"]
  by simp


section \<open>Properties of the symbol provider on every document\<close>

lemma variables_loop_preserves:
  assumes push: "\<And>s v. P s \<Longrightarrow> inside_handler s \<Longrightarrow> kind v = Variable \<Longrightarrow>
                   P (s\<lparr>handler_Symbol := push_child (handler_Symbol s) v\<rparr>)"
      and app: "\<And>s v. P s \<Longrightarrow> \<not> inside_handler s \<Longrightarrow> kind v = Variable \<Longrightarrow>
                   P (s\<lparr>symbols := symbols s @ [v]\<rparr>)"
  shows "P st \<Longrightarrow> variables_loop line tokens i q st = Inr st' \<Longrightarrow> P st'"
proof (induction "length tokens - i" arbitrary: i q st)
  case 0
  then have "variables_loop line tokens i q st = Inr st"
    by (subst variables_loop.simps) simp
  with 0 show ?case by simp
next
  case (Suc n)
  have step: "P s \<Longrightarrow> variables_loop line tokens (Suc i) q' s = Inr st' \<Longrightarrow> P st'" for q' s
    using Suc.hyps(1)[of "Suc i" s q'] Suc.hyps(2) by simp
  have lt: "i < length tokens" using Suc.hyps(2) by simp
  define tok where "tok = tokens ! i"
  define q' where "q' = (if tok = [CHR 0x22] then \<not> q else q)"
  define skip where "skip \<longleftrightarrow> q' \<or> i = 0 \<or> tok = ''='' \<or> tok = [CHR 0x22]
               \<or> (0 < i \<and> at tokens (i - 1) = Some ''='') \<or> tok = '',''"
  define body where "body = (\<lambda>localvar_Symbol.
                   if inside_blockcomment st
                   then variables_loop line tokens (Suc i) q' st
                   else (let r = new_Range (range_start (symbol_range localvar_Symbol))
                                           (range_end (line_range line));
                             v = with_selectionRange (with_range localvar_Symbol r) r;
                             st' = (if inside_handler st
                                    then st\<lparr>handler_Symbol := push_child (handler_Symbol st) v\<rparr>
                                    else st\<lparr>symbols := symbols st @ [v]\<rparr>)
                         in variables_loop line tokens (Suc i) q' st'))"
  have unfold: "variables_loop line tokens i q st =
     (if skip then variables_loop line tokens (Suc i) q' st
      else if tok = ''variable'' then variables_loop line tokens (Suc i) q' st
      else if tok = ''as'' then Inr st
      else and_then (new_DocumentSymbol (Some tok) (at tokens 0) symbolkind_variable
                             (line_range line) (line_range line)) body)"
    by (subst variables_loop.simps)
       (simp only: lt if_True Let_def tok_def q'_def skip_def body_def)
  have run: "(if skip then variables_loop line tokens (Suc i) q' st
      else if tok = ''variable'' then variables_loop line tokens (Suc i) q' st
      else if tok = ''as'' then Inr st
      else and_then (new_DocumentSymbol (Some tok) (at tokens 0) symbolkind_variable
                             (line_range line) (line_range line)) body) = Inr st'"
    using Suc.prems(2) unfolding unfold .
  show ?case
  proof (cases "skip \<or> tok = ''variable''")
    case True
    with run have "variables_loop line tokens (Suc i) q' st = Inr st'"
      by (simp split: if_splits)
    with Suc.prems(1) show ?thesis by (rule step)
  next
    case False
    show ?thesis
    proof (cases "tok = ''as''")
      case True
      with False run have "st' = st" by simp
      with Suc.prems(1) show ?thesis by simp
    next
      case notas: False
      from False notas run obtain lv where
        lv: "new_DocumentSymbol (Some tok) (at tokens 0) symbolkind_variable
               (line_range line) (line_range line) = Inr lv" and
        b: "body lv = Inr st'"
        by (cases "new_DocumentSymbol (Some tok) (at tokens 0) symbolkind_variable
               (line_range line) (line_range line)") (simp_all add: and_then_def)
      from lv have klv: "kind lv = Variable"
        by (auto simp: new_DocumentSymbol_def symbolkind_variable_def split: if_splits)
      show ?thesis
      proof (cases "inside_blockcomment st")
        case True
        with b have "variables_loop line tokens (Suc i) q' st = Inr st'"
          by (simp add: body_def)
        with Suc.prems(1) show ?thesis by (rule step)
      next
        case False
        define r where "r = new_Range (range_start (symbol_range lv)) (range_end (line_range line))"
        define v where "v = with_selectionRange (with_range lv r) r"
        define st2 where "st2 = (if inside_handler st
                                 then st\<lparr>handler_Symbol := push_child (handler_Symbol st) v\<rparr>
                                 else st\<lparr>symbols := symbols st @ [v]\<rparr>)"
        have kv: "kind v = Variable"
          using klv by (simp add: v_def with_selectionRange_def with_range_def)
        have P2: "P st2"
          unfolding st2_def using push[OF Suc.prems(1) _ kv] app[OF Suc.prems(1) _ kv] by simp
        from b False have "variables_loop line tokens (Suc i) q' st2 = Inr st'"
          by (simp only: body_def Let_def r_def v_def st2_def if_False)
        with P2 show ?thesis by (rule step)
      qed
    qed
  qed
qed

lemma variables_branch_preserves:
  assumes "\<And>s v. P s \<Longrightarrow> inside_handler s \<Longrightarrow> kind v = Variable \<Longrightarrow>
                   P (s\<lparr>handler_Symbol := push_child (handler_Symbol s) v\<rparr>)"
      and "\<And>s v. P s \<Longrightarrow> \<not> inside_handler s \<Longrightarrow> kind v = Variable \<Longrightarrow>
                   P (s\<lparr>symbols := symbols s @ [v]\<rparr>)"
      and "P st" and "variables_branch line lineText tokens st = Inr st'"
  shows "P st'"
proof (cases "str_match lineText re_variable \<noteq> None")
  case True
  with assms(4) have "variables_loop line tokens 0 False st = Inr st'"
    by (simp add: variables_branch_def)
  with assms(3) show ?thesis
    by (rule variables_loop_preserves[where P = P, rotated 2]) (fact assms(1), fact assms(2))
next
  case False
  with assms(4) have "st' = st"
    by (simp add: variables_branch_def)
  with assms(3) show ?thesis by simp
qed

lemma variables_branch_frame:
  assumes "variables_branch line lineText tokens st = Inr st'"
  shows "inside_handler st' = inside_handler st"
    and "kind (handler_Symbol st') = kind (handler_Symbol st)"
    and "inside_handler st \<Longrightarrow> symbols st' = symbols st"
proof -
  have "inside_handler st = inside_handler st" ..
  then show "inside_handler st' = inside_handler st"
    using assms
    by (rule variables_branch_preserves[where P = "\<lambda>s. inside_handler s = inside_handler st", rotated 2])
       simp_all
  have "kind (handler_Symbol st) = kind (handler_Symbol st)" ..
  then show "kind (handler_Symbol st') = kind (handler_Symbol st)"
    using assms
    by (rule variables_branch_preserves[where P = "\<lambda>s. kind (handler_Symbol s) = kind (handler_Symbol st)", rotated 2])
       (simp_all add: push_child_def)
  show "symbols st' = symbols st" if "inside_handler st"
  proof -
    from that have "inside_handler st \<and> symbols st = symbols st" by simp
    then have "inside_handler st' \<and> symbols st' = symbols st"
      using assms
      by (rule variables_branch_preserves[where P = "\<lambda>s. inside_handler s \<and> symbols s = symbols st", rotated 2])
         simp_all
    then show ?thesis ..
  qed
qed


lemma accepts_Bol_Seq: "accepts (Seq Bol r) p w \<longleftrightarrow> p = 0 \<and> accepts r 0 w"
  by auto

lemma dropWhile_spaces_then:
  "list_all is_space sp \<Longrightarrow> \<not> is_space c \<Longrightarrow> dropWhile is_space (sp @ c # t) = c # t"
  by (induction sp) auto

lemma not_space_letters:
  "\<not> is_space CHR ''h''" "\<not> is_space CHR ''e''" "\<not> is_space CHR ''p''"
  by (simp_all add: is_space_def charCode_def)

lemma handler_lead:
  assumes "str_match s re_handler \<noteq> None"
  shows "\<exists>t. dropWhile is_space s = ''handler'' @ t"
proof -
  from assms obtain pre w post where s: "s = pre @ w @ post" and a: "accepts re_handler (length pre) w"
    unfolding str_match_iff by blast
  from a obtain sp t where "pre = []" "w = sp @ ''handler'' @ t" "list_all (in_cls Space) sp"
    unfolding re_handler_def seql.simps accepts.simps length_0_conv by blast
  then have \<open>list_all is_space sp\<close>
    by (simp add: list_all_iff)
  note f = \<open>pre = []\<close> \<open>w = sp @ ''handler'' @ t\<close>
  from f have "s = sp @ CHR ''h'' # (''andler'' @ t @ post)" using s by simp
  with dropWhile_spaces_then[OF \<open>list_all is_space sp\<close> not_space_letters(1)]
  show ?thesis by simp
qed

lemma private_lead:
  assumes "str_match s re_private_handler \<noteq> None"
  shows "\<exists>t. dropWhile is_space s = ''private'' @ t"
proof -
  from assms obtain pre w post where s: "s = pre @ w @ post"
      and a: "accepts re_private_handler (length pre) w"
    unfolding str_match_iff by blast
  from a obtain sp t where "pre = []" "w = sp @ ''private'' @ t" "list_all (in_cls Space) sp"
    unfolding re_private_handler_def seql.simps accepts.simps length_0_conv by blast
  then have \<open>list_all is_space sp\<close>
    by (simp add: list_all_iff)
  note f = \<open>pre = []\<close> \<open>w = sp @ ''private'' @ t\<close>
  from f have "s = sp @ CHR ''p'' # (''rivate'' @ t @ post)" using s by simp
  with dropWhile_spaces_then[OF \<open>list_all is_space sp\<close> not_space_letters(3)]
  show ?thesis by simp
qed

lemma end_lead:
  assumes "str_match s re_end_handler \<noteq> None"
  shows "\<exists>t. dropWhile is_space s = ''end'' @ t"
proof -
  from assms obtain pre w post where s: "s = pre @ w @ post"
      and a: "accepts re_end_handler (length pre) w"
    unfolding str_match_iff by blast
  from a obtain sp t where "pre = []" "w = sp @ ''end'' @ t" "list_all (in_cls Space) sp"
    unfolding re_end_handler_def seql.simps accepts.simps length_0_conv by blast
  then have \<open>list_all is_space sp\<close>
    by (simp add: list_all_iff)
  note f = \<open>pre = []\<close> \<open>w = sp @ ''end'' @ t\<close>
  from f have "s = sp @ CHR ''e'' # (''nd'' @ t @ post)" using s by simp
  with dropWhile_spaces_then[OF \<open>list_all is_space sp\<close> not_space_letters(2)]
  show ?thesis by simp
qed

lemma end_col0_is_end:
  assumes "str_match s re_end_handler_col0 \<noteq> None"
  shows "str_match s re_end_handler \<noteq> None"
proof -
  from assms obtain pre w post where s: "s = pre @ w @ post"
      and a: "accepts re_end_handler_col0 (length pre) w"
    unfolding str_match_iff by blast
  from a have "pre = []" and "accepts (seql [Str ''end'', Plus Space, Str ''handler'', Star Space]) 0 w"
    unfolding re_end_handler_col0_def seql.simps accepts_Bol_Seq by auto
  then have "accepts re_end_handler (length pre) ([] @ w)"
    unfolding re_end_handler_def seql.simps accepts_Bol_Seq
    by (intro conjI accepts_SeqI) simp_all
  with s show ?thesis
    unfolding str_match_iff by (intro exI[of _ pre] exI[of _ w] exI[of _ post]) simp
qed

lemma ends_handler_iff: "ends_handler l \<longleftrightarrow> str_match (replace_re l) re_end_handler \<noteq> None"
  unfolding ends_handler_def using end_col0_is_end by blast

lemma opens_not_ends: "opens_handler l \<Longrightarrow> \<not> ends_handler l"
proof
  assume o: "opens_handler l" and e: "ends_handler l"
  from e obtain t where t: "dropWhile is_space (replace_re l) = ''end'' @ t"
    unfolding ends_handler_iff using end_lead by blast
  from o show False
    unfolding opens_handler_def
  proof
    assume "str_match (replace_re l) re_handler \<noteq> None"
    from handler_lead[OF this] t show False by auto
  next
    assume "str_match (replace_re l) re_private_handler \<noteq> None"
    from private_lead[OF this] t show False by auto
  qed
qed


lemma and_then_Inr: "and_then m f = Inr y \<longleftrightarrow> (\<exists>x. m = Inr x \<and> f x = Inr y)"
  by (cases m) (simp_all add: and_then_def)

lemma scan_line_Inr:
  assumes "scan_line document i st = Inr st'"
  obtains line st1 st2 where
    "lineAt document i = Inr line" "line_text line = document ! i" "i < lineCount document"
    "handler_branch line (replace_re (document ! i)) (tokenize (replace_re (document ! i))) st
       = Inr st1"
    "private_branch line (replace_re (document ! i)) (tokenize (replace_re (document ! i))) st1
       = Inr st2"
    "variables_branch line (replace_re (document ! i)) (tokenize (replace_re (document ! i))) st2
       = Inr st'"
proof -
  from assms obtain line where l: "lineAt document i = Inr line"
    and r: "(let lineText = replace_re (line_text line); tokens = tokenize lineText
       in and_then (handler_branch line lineText tokens st) (\<lambda>st1.
          and_then (private_branch line lineText tokens st1) (\<lambda>st2.
            variables_branch line lineText tokens st2))) = Inr st'"
    unfolding scan_line_def and_then_Inr by blast
  from l have t: "line_text line = document ! i" "i < lineCount document"
    by (auto simp: lineAt_def split: if_splits)
  from r obtain st1 st2 where
    "handler_branch line (replace_re (document ! i)) (tokenize (replace_re (document ! i))) st
       = Inr st1"
    "private_branch line (replace_re (document ! i)) (tokenize (replace_re (document ! i))) st1
       = Inr st2"
    "variables_branch line (replace_re (document ! i)) (tokenize (replace_re (document ! i))) st2
       = Inr st'"
    unfolding Let_def t and_then_Inr by blast
  with l t that show thesis by blast
qed

lemma handler_branch_open:
  assumes "str_match lineText re_handler \<noteq> None"
    and "handler_branch line lineText tokens st = Inr st1"
  shows "inside_handler st1 \<and> symbols st1 = symbols st \<and> kind (handler_Symbol st1) = Method"
  using assms
  by (auto simp: handler_branch_def and_then_Inr Let_def with_range_def with_selectionRange_def
      with_kind_def with_name_def symbolkind_public_handler_def split: option.splits)

lemma handler_branch_neutral:
  assumes "str_match lineText re_handler = None" "str_match lineText re_end_handler = None"
    and "handler_branch line lineText tokens st = Inr st1"
  shows "st1 = st"
  using assms by (simp add: handler_branch_def)

lemma private_branch_open:
  assumes "str_match lineText re_private_handler \<noteq> None"
    and "private_branch line lineText tokens st = Inr st2"
  shows "inside_handler st2 \<and> symbols st2 = symbols st \<and> kind (handler_Symbol st2) = Method"
  using assms
  by (auto simp: private_branch_def and_then_Inr new_DocumentSymbol_def
      symbolkind_private_handler_def split: option.splits if_splits)

lemma private_branch_neutral:
  assumes "str_match lineText re_private_handler = None"
    "str_match lineText re_end_handler_col0 = None"
    and "private_branch line lineText tokens st = Inr st2"
  shows "st2 = st"
  using assms by (simp add: private_branch_def)

lemma scan_line_opens:
  assumes o: "opens_handler (document ! i)" and s: "scan_line document i st = Inr st'"
  shows "inside_handler st' \<and> symbols st' = symbols st \<and> kind (handler_Symbol st') = Method"
proof -
  define lt where "lt = replace_re (document ! i)"
  from s obtain line st1 st2 where
    h: "handler_branch line lt (tokenize lt) st = Inr st1" and
    p: "private_branch line lt (tokenize lt) st1 = Inr st2" and
    v: "variables_branch line lt (tokenize lt) st2 = Inr st'"
    unfolding lt_def by (rule scan_line_Inr)
  from opens_not_ends[OF o] have ne: "str_match lt re_end_handler = None"
    "str_match lt re_end_handler_col0 = None"
    unfolding ends_handler_def lt_def by simp_all
  have "inside_handler st2 \<and> symbols st2 = symbols st \<and> kind (handler_Symbol st2) = Method"
  proof (cases "str_match lt re_private_handler = None")
    case True
    with o have "str_match lt re_handler \<noteq> None"
      unfolding opens_handler_def lt_def by simp
    from handler_branch_open[OF this h] private_branch_neutral[OF True ne(2) p]
    show ?thesis by simp
  next
    case False
    have "symbols st1 = symbols st"
    proof (cases "str_match lt re_handler = None")
      case True
      from handler_branch_neutral[OF True ne(1) h] show ?thesis by simp
    next
      case False
      from handler_branch_open[OF False h] show ?thesis by simp
    qed
    with private_branch_open[OF False p] show ?thesis by simp
  qed
  with variables_branch_frame[OF v] show ?thesis by simp
qed

lemma scan_line_inside:
  assumes i: "inside_handler st" and ne: "\<not> ends_handler (document ! i)"
    and s: "scan_line document i st = Inr st'"
  shows "inside_handler st' \<and> symbols st' = symbols st"
proof -
  define lt where "lt = replace_re (document ! i)"
  from s obtain line st1 st2 where
    h: "handler_branch line lt (tokenize lt) st = Inr st1" and
    p: "private_branch line lt (tokenize lt) st1 = Inr st2" and
    v: "variables_branch line lt (tokenize lt) st2 = Inr st'"
    unfolding lt_def by (rule scan_line_Inr)
  from ne have ne: "str_match lt re_end_handler = None" "str_match lt re_end_handler_col0 = None"
    unfolding ends_handler_def lt_def by simp_all
  have 1: "inside_handler st1 \<and> symbols st1 = symbols st"
  proof (cases "str_match lt re_handler = None")
    case True
    from handler_branch_neutral[OF True ne(1) h] i show ?thesis by simp
  next
    case False
    from handler_branch_open[OF False h] show ?thesis by simp
  qed
  have 2: "inside_handler st2 \<and> symbols st2 = symbols st"
  proof (cases "str_match lt re_private_handler = None")
    case True
    from private_branch_neutral[OF True ne(2) p] 1 show ?thesis by simp
  next
    case False
    from private_branch_open[OF False p] 1 show ?thesis by simp
  qed
  with variables_branch_frame[OF v] show ?thesis by simp
qed


lemma scan_loop_step:
  "i < lineCount document \<Longrightarrow>
   scan_loop document i st = and_then (scan_line document i st) (scan_loop document (Suc i))"
  by (subst scan_loop.simps) simp

lemma scan_loop_done: "\<not> i < lineCount document \<Longrightarrow> scan_loop document i st = Inr st"
  by (subst scan_loop.simps) simp

lemma scan_line_take:
  "i < k \<Longrightarrow> k \<le> lineCount document \<Longrightarrow> scan_line (take k document) i st = scan_line document i st"
  by (simp add: scan_line_def lineAt_def lineCount_def)

lemma and_then_assoc: "and_then (and_then m f) g = and_then m (\<lambda>x. and_then (f x) g)"
  by (cases m) (simp_all add: and_then_def)

lemma scan_loop_split:
  "i \<le> k \<Longrightarrow> k \<le> lineCount document \<Longrightarrow>
   scan_loop document i st = and_then (scan_loop (take k document) i st) (scan_loop document k)"
proof (induction "k - i" arbitrary: i st)
  case 0
  then have "i = k" by simp
  moreover have "scan_loop (take k document) k st = Inr st"
    by (rule scan_loop_done) (simp add: lineCount_def)
  ultimately show ?case by (simp add: and_then_def)
next
  case (Suc n)
  then have lt: "i < k" "i < lineCount document" "i < lineCount (take k document)"
    by (simp_all add: lineCount_def)
  have IH: "scan_loop document (Suc i) s =
            and_then (scan_loop (take k document) (Suc i) s) (scan_loop document k)" for s
    using Suc.hyps(1)[of "Suc i" s] Suc.hyps(2) Suc.prems by simp
  have IH': "scan_loop document (Suc i) =
            (\<lambda>s. and_then (scan_loop (take k document) (Suc i) s) (scan_loop document k))"
    by (rule ext) (rule IH)
  show ?case
    unfolding scan_loop_step[OF lt(2)] scan_loop_step[OF lt(3)]
      scan_line_take[OF lt(1) Suc.prems(2)] and_then_assoc
    by (subst IH') (rule refl)
qed

lemma scan_loop_inside:
  "inside_handler st \<Longrightarrow> \<forall>l \<in> set (drop i document). \<not> ends_handler l \<Longrightarrow>
   scan_loop document i st = Inr st' \<Longrightarrow> symbols st' = symbols st"
proof (induction "lineCount document - i" arbitrary: i st)
  case 0
  then have "scan_loop document i st = Inr st"
    by (intro scan_loop_done) simp
  with 0 show ?case by simp
next
  case (Suc n)
  then have lt: "i < lineCount document" by simp
  then have d: "drop i document = document ! i # drop (Suc i) document"
    by (simp add: Cons_nth_drop_Suc lineCount_def)
  from Suc.prems(3) obtain st1 where
    l: "scan_line document i st = Inr st1" and r: "scan_loop document (Suc i) st1 = Inr st'"
    unfolding scan_loop_step[OF lt] and_then_Inr by blast
  from Suc.prems(2) d have ne: "\<not> ends_handler (document ! i)"
    and rest: "\<forall>l \<in> set (drop (Suc i) document). \<not> ends_handler l"
    by simp_all
  from scan_line_inside[OF Suc.prems(1) ne l] have 1: "inside_handler st1" "symbols st1 = symbols st"
    by simp_all
  from Suc.hyps(1)[of "Suc i" st1, OF _ 1(1) rest r] Suc.hyps(2) 1(2)
  show ?case by simp
qed

lemma unclosed_handler_prefix:
  assumes "provideDocumentSymbols document = Inr syms"
    and "k < lineCount document"
    and "opens_handler (document ! k)"
    and "\<forall>l \<in> set (drop (Suc k) document). \<not> ends_handler l"
  shows "\<exists>st0 st. initial_state document = Inr st0
                 \<and> scan_loop (take k document) 0 st0 = Inr st
                 \<and> syms = symbols st"
proof -
  from assms(1) obtain st0 stf where
    i: "initial_state document = Inr st0" and f: "scan_loop document 0 st0 = Inr stf"
    and s: "syms = symbols stf"
    unfolding provideDocumentSymbols_def and_then_Inr by auto
  from f obtain st where
    p: "scan_loop (take k document) 0 st0 = Inr st" and r: "scan_loop document k st = Inr stf"
    using scan_loop_split[of 0 k document st0] assms(2)
    by (auto simp: and_then_Inr)
  from r obtain st1 where
    l: "scan_line document k st = Inr st1" and r1: "scan_loop document (Suc k) st1 = Inr stf"
    unfolding scan_loop_step[OF assms(2)] and_then_Inr by blast
  from scan_line_opens[OF assms(3) l] have 1: "inside_handler st1" "symbols st1 = symbols st"
    by simp_all
  from scan_loop_inside[OF 1(1) assms(4) r1] 1(2) have "symbols stf = symbols st"
    by simp
  with i p s show ?thesis by blast
qed

lemma lineAt_range:
  "lineAt document i = Inr line \<Longrightarrow>
   line_range line = span (int i) 0 (int i) (int (length (document ! i)))"
  by (auto simp: lineAt_def split: if_splits)

lemma handler_branch_open_range:
  assumes "str_match lineText re_handler \<noteq> None"
    and "handler_branch line lineText tokens st = Inr st1"
  shows "symbol_range (handler_Symbol st1) = line_range line"
  using assms
  by (auto simp: handler_branch_def and_then_Inr Let_def with_range_def with_selectionRange_def
      with_kind_def with_name_def split: option.splits)

lemma private_branch_open_range:
  assumes "str_match lineText re_private_handler \<noteq> None"
    and "private_branch line lineText tokens st = Inr st2"
  shows "symbol_range (handler_Symbol st2) = line_range line"
  using assms
  by (auto simp: private_branch_def and_then_Inr new_DocumentSymbol_def
      split: option.splits if_splits)

lemma variables_branch_handler:
  assumes "variables_branch line lineText tokens st = Inr st'"
  shows "symbol_range (handler_Symbol st') = symbol_range (handler_Symbol st)"
proof -
  have "symbol_range (handler_Symbol st) = symbol_range (handler_Symbol st)" ..
  then show ?thesis
    using assms
    by (rule variables_branch_preserves
          [where P = "\<lambda>s. symbol_range (handler_Symbol s) = symbol_range (handler_Symbol st)", rotated 2])
       (simp_all add: push_child_def)
qed

lemma variables_branch_symbols:
  assumes "variables_branch line lineText tokens st = Inr st'"
  shows "\<forall>x \<in> set (symbols st'). x \<in> set (symbols st) \<or> kind x = Variable"
proof -
  have "\<forall>x \<in> set (symbols st). x \<in> set (symbols st) \<or> kind x = Variable" by simp
  then show ?thesis
    using assms
    by (rule variables_branch_preserves
          [where P = "\<lambda>s. \<forall>x \<in> set (symbols s). x \<in> set (symbols st) \<or> kind x = Variable", rotated 2])
       auto
qed

lemma scan_line_opens_range:
  assumes o: "opens_handler (document ! i)" and s: "scan_line document i st = Inr st'"
  shows "symbol_range (handler_Symbol st') = span (int i) 0 (int i) (int (length (document ! i)))"
proof -
  define lt where "lt = replace_re (document ! i)"
  from s obtain line st1 st2 where
    la: "lineAt document i = Inr line" and
    h: "handler_branch line lt (tokenize lt) st = Inr st1" and
    p: "private_branch line lt (tokenize lt) st1 = Inr st2" and
    v: "variables_branch line lt (tokenize lt) st2 = Inr st'"
    unfolding lt_def by (rule scan_line_Inr)
  from opens_not_ends[OF o] have ne: "str_match lt re_end_handler = None"
    "str_match lt re_end_handler_col0 = None"
    unfolding ends_handler_def lt_def by simp_all
  have "symbol_range (handler_Symbol st2) = line_range line"
  proof (cases "str_match lt re_private_handler = None")
    case True
    with o have "str_match lt re_handler \<noteq> None"
      unfolding opens_handler_def lt_def by simp
    from handler_branch_open_range[OF this h] private_branch_neutral[OF True ne(2) p]
    show ?thesis by simp
  next
    case False
    from private_branch_open_range[OF False p] show ?thesis .
  qed
  with variables_branch_handler[OF v] lineAt_range[OF la] show ?thesis by simp
qed

lemma scan_line_neutral:
  assumes no: "\<not> opens_handler (document ! i)" and ne: "\<not> ends_handler (document ! i)"
    and s: "scan_line document i st = Inr st'"
  shows "inside_handler st' = inside_handler st"
    and "kind (handler_Symbol st') = kind (handler_Symbol st)"
    and "symbol_range (handler_Symbol st') = symbol_range (handler_Symbol st)"
    and "\<forall>x \<in> set (symbols st'). x \<in> set (symbols st) \<or> kind x = Variable"
proof -
  define lt where "lt = replace_re (document ! i)"
  from s obtain line st1 st2 where
    h: "handler_branch line lt (tokenize lt) st = Inr st1" and
    p: "private_branch line lt (tokenize lt) st1 = Inr st2" and
    v: "variables_branch line lt (tokenize lt) st2 = Inr st'"
    unfolding lt_def by (rule scan_line_Inr)
  from no ne have n: "str_match lt re_handler = None" "str_match lt re_private_handler = None"
    "str_match lt re_end_handler = None" "str_match lt re_end_handler_col0 = None"
    unfolding opens_handler_def ends_handler_def lt_def by simp_all
  from handler_branch_neutral[OF n(1) n(3) h] private_branch_neutral[OF n(2) n(4) p]
  have "st2 = st" by simp
  with variables_branch_frame[OF v] variables_branch_handler[OF v] variables_branch_symbols[OF v]
  show "inside_handler st' = inside_handler st"
    and "kind (handler_Symbol st') = kind (handler_Symbol st)"
    and "symbol_range (handler_Symbol st') = symbol_range (handler_Symbol st)"
    and "\<forall>x \<in> set (symbols st'). x \<in> set (symbols st) \<or> kind x = Variable"
    by simp_all
qed

lemma scan_line_ends:
  assumes e: "ends_handler (document ! i)" and s: "scan_line document i st = Inr st'"
  shows "\<not> inside_handler st'"
    and "\<forall>x \<in> set (symbols st'). x \<in> set (symbols st) \<or> kind x = Variable
           \<or> (inside_handler st \<and> kind x = kind (handler_Symbol st)
               \<and> symbol_range x = new_Range (range_start (symbol_range (handler_Symbol st)))
                     \<lparr>pos_line = int i, pos_character = int (length (document ! i))\<rparr>)"
proof -
  define lt where "lt = replace_re (document ! i)"
  from s obtain line st1 st2 where
    la: "lineAt document i = Inr line" and
    h: "handler_branch line lt (tokenize lt) st = Inr st1" and
    p: "private_branch line lt (tokenize lt) st1 = Inr st2" and
    v: "variables_branch line lt (tokenize lt) st2 = Inr st'"
    unfolding lt_def by (rule scan_line_Inr)
  from e opens_not_ends[of "document ! i"] have no: "\<not> opens_handler (document ! i)" by blast
  then have n: "str_match lt re_handler = None" "str_match lt re_private_handler = None"
    unfolding opens_handler_def lt_def by simp_all
  from e have m: "str_match lt re_end_handler \<noteq> None"
    unfolding ends_handler_iff lt_def .
  from h n(1) m have st1: "st1 = close_handler line st"
    by (simp add: handler_branch_def)
  then have i1: "\<not> inside_handler st1"
    by (simp add: close_handler_def Let_def)
  then have "close_handler line st1 = st1"
    by (simp add: close_handler_def)
  with p n(2) have st2: "st2 = st1"
    by (simp add: private_branch_def split: if_splits)
  from variables_branch_frame(1)[OF v] i1 st2 show "\<not> inside_handler st'" by simp
  have re: "range_end (line_range line) = \<lparr>pos_line = int i, pos_character = int (length (document ! i))\<rparr>"
    using lineAt_range[OF la] by (simp add: span_def)
  have "\<forall>x \<in> set (symbols st2). x \<in> set (symbols st)
           \<or> (inside_handler st \<and> kind x = kind (handler_Symbol st)
               \<and> symbol_range x = new_Range (range_start (symbol_range (handler_Symbol st)))
                     \<lparr>pos_line = int i, pos_character = int (length (document ! i))\<rparr>)"
    unfolding st2 st1
    by (auto simp: close_handler_def Let_def with_range_def with_selectionRange_def re)
  with variables_branch_symbols[OF v]
  show "\<forall>x \<in> set (symbols st'). x \<in> set (symbols st) \<or> kind x = Variable
           \<or> (inside_handler st \<and> kind x = kind (handler_Symbol st)
               \<and> symbol_range x = new_Range (range_start (symbol_range (handler_Symbol st)))
                     \<lparr>pos_line = int i, pos_character = int (length (document ! i))\<rparr>)"
    by blast
qed


lemma new_Range_later_line:
  "i < j \<Longrightarrow>
   new_Range (range_start (span (int i) 0 (int i) c)) \<lparr>pos_line = int j, pos_character = d\<rparr>
     = span (int i) 0 (int j) d"
  by (simp add: new_Range_def isBefore_def span_def)

lemma scan_inv_step:
  assumes inv: "scan_inv document n st" and n: "n < lineCount document"
    and s: "scan_line document n st = Inr st'"
  shows "scan_inv document (Suc n) st'"
proof -
  from inv have J1: "inside_handler st \<Longrightarrow>
        \<exists>i<n. opens_handler (document ! i)
           \<and> symbol_range (handler_Symbol st)
               = span (int i) 0 (int i) (int (length (document ! i)))
           \<and> kind (handler_Symbol st) = Method
           \<and> (\<forall>m. i < m \<and> m < n \<longrightarrow>
                  \<not> opens_handler (document ! m) \<and> \<not> ends_handler (document ! m))"
    and J2: "\<And>x. x \<in> set (symbols st) \<Longrightarrow> kind x = Method \<Longrightarrow>
               \<exists>i j. j < n \<and> closed_handler_at document i j x"
    unfolding scan_inv_def by blast+
  have old: "\<exists>i j. j < Suc n \<and> closed_handler_at document i j x"
    if "x \<in> set (symbols st)" "kind x = Method" for x
    using J2[OF that] less_SucI by blast
  consider (opens) "opens_handler (document ! n)"
    | (ends) "ends_handler (document ! n)"
    | (neutral) "\<not> opens_handler (document ! n)" "\<not> ends_handler (document ! n)"
    by blast
  then show ?thesis
  proof cases
    case opens
    from scan_line_opens[OF opens s] scan_line_opens_range[OF opens s]
    have f: "inside_handler st'" "symbols st' = symbols st" "kind (handler_Symbol st') = Method"
      "symbol_range (handler_Symbol st') = span (int n) 0 (int n) (int (length (document ! n)))"
      by simp_all
    have "\<exists>i<Suc n. opens_handler (document ! i)
           \<and> symbol_range (handler_Symbol st')
               = span (int i) 0 (int i) (int (length (document ! i)))
           \<and> kind (handler_Symbol st') = Method
           \<and> (\<forall>m. i < m \<and> m < Suc n \<longrightarrow>
                  \<not> opens_handler (document ! m) \<and> \<not> ends_handler (document ! m))"
    proof -
      have "\<forall>m. n < m \<and> m < Suc n \<longrightarrow>
                  \<not> opens_handler (document ! m) \<and> \<not> ends_handler (document ! m)"
        by auto
      with opens f show ?thesis
        by (intro exI[of _ n]) simp
    qed
    with old f(2) show ?thesis
      unfolding scan_inv_def by simp
  next
    case ends
    note r = scan_line_ends[OF ends s]
    have "\<exists>i j. j < Suc n \<and> closed_handler_at document i j x"
      if x: "x \<in> set (symbols st')" and k: "kind x = Method" for x
    proof -
      from r(2) x k consider "x \<in> set (symbols st)"
        | "inside_handler st" "symbol_range x =
             new_Range (range_start (symbol_range (handler_Symbol st)))
               \<lparr>pos_line = int n, pos_character = int (length (document ! n))\<rparr>"
        by auto
      then show ?thesis
      proof cases
        case 1
        then show ?thesis using k by (rule old)
      next
        case 2
        from J1[OF 2(1)] obtain i where i: "i < n" "opens_handler (document ! i)"
          "symbol_range (handler_Symbol st)
               = span (int i) 0 (int i) (int (length (document ! i)))"
          "\<forall>m. i < m \<and> m < n \<longrightarrow>
                  \<not> opens_handler (document ! m) \<and> \<not> ends_handler (document ! m)"
          by blast
        have "symbol_range x = span (int i) 0 (int n) (int (length (document ! n)))"
          unfolding 2(2) i(3) using i(1) by (rule new_Range_later_line)
        with i n ends have "closed_handler_at document i n x"
          unfolding closed_handler_at_def by simp
        then show ?thesis by blast
      qed
    qed
    with r(1) show ?thesis
      unfolding scan_inv_def by simp
  next
    case neutral
    note r = scan_line_neutral[OF neutral s]
    have 1: "\<exists>i<Suc n. opens_handler (document ! i)
           \<and> symbol_range (handler_Symbol st')
               = span (int i) 0 (int i) (int (length (document ! i)))
           \<and> kind (handler_Symbol st') = Method
           \<and> (\<forall>m. i < m \<and> m < Suc n \<longrightarrow>
                  \<not> opens_handler (document ! m) \<and> \<not> ends_handler (document ! m))"
      if "inside_handler st'"
    proof -
      from that r(1) have "inside_handler st" by simp
      from J1[OF this] obtain i where i: "i < n" "opens_handler (document ! i)"
          "symbol_range (handler_Symbol st)
               = span (int i) 0 (int i) (int (length (document ! i)))"
          "kind (handler_Symbol st) = Method"
          "\<forall>m. i < m \<and> m < n \<longrightarrow>
                  \<not> opens_handler (document ! m) \<and> \<not> ends_handler (document ! m)"
        by blast
      have "\<forall>m. i < m \<and> m < Suc n \<longrightarrow>
                  \<not> opens_handler (document ! m) \<and> \<not> ends_handler (document ! m)"
        using i(5) neutral less_Suc_eq by auto
      with i r(2,3) show ?thesis
        by (intro exI[of _ i]) simp
    qed
    have 2: "\<exists>i j. j < Suc n \<and> closed_handler_at document i j x"
      if x: "x \<in> set (symbols st')" and k: "kind x = Method" for x
    proof -
      from r(4) x k have "x \<in> set (symbols st)" by auto
      then show ?thesis using k by (rule old)
    qed
    from 1 2 show ?thesis
      unfolding scan_inv_def by blast
  qed
qed

lemma scan_inv_loop:
  "scan_inv document i st \<Longrightarrow> i \<le> lineCount document \<Longrightarrow>
   scan_loop document i st = Inr st' \<Longrightarrow> scan_inv document (lineCount document) st'"
proof (induction "lineCount document - i" arbitrary: i st)
  case 0
  then have "scan_loop document i st = Inr st" "i = lineCount document"
    by (simp_all add: scan_loop_done)
  with 0 show ?case by simp
next
  case (Suc n)
  then have lt: "i < lineCount document" by simp
  from Suc.prems(3) obtain st1 where
    l: "scan_line document i st = Inr st1" and r: "scan_loop document (Suc i) st1 = Inr st'"
    unfolding scan_loop_step[OF lt] and_then_Inr by blast
  from scan_inv_step[OF Suc.prems(1) lt l] have "scan_inv document (Suc i) st1" .
  from Suc.hyps(1)[of "Suc i" st1, OF _ this _ r] Suc.hyps(2) lt show ?case by simp
qed

lemma initial_state_inv: "initial_state document = Inr st0 \<Longrightarrow> scan_inv document 0 st0"
  by (auto simp: initial_state_def and_then_Inr scan_inv_def)

lemma handler_symbols_closed:
  assumes "provideDocumentSymbols document = Inr syms" "s \<in> set syms" "kind s = Method"
  shows "\<exists>i j. closed_handler_at document i j s"
proof -
  from assms(1) obtain st0 stf where
    i: "initial_state document = Inr st0" and f: "scan_loop document 0 st0 = Inr stf"
    and s: "syms = symbols stf"
    unfolding provideDocumentSymbols_def and_then_Inr by auto
  from scan_inv_loop[OF initial_state_inv[OF i] _ f] have "scan_inv document (lineCount document) stf"
    by simp
  with assms(2,3) s show ?thesis
    unfolding scan_inv_def by blast
qed

text \<open>
  Claim C10. A symbol of the kind of a handler is in the result only if a line opened
  the handler and a later line closed it, with no line between them that opens or
  closes a handler; its range goes from the start of the opening line to the end of
  the closing line. So a line that opens a handler and is followed by no
  \<open>end handler\<close> line adds nothing to the result: the result is the list of symbols
  that the scan of the lines before it has built, and neither the handler nor the
  variables declared after its opening line are in it.
\<close>

theorem handler_symbol_only_when_closed:
  assumes "provideDocumentSymbols document = Inr syms"
  shows "(\<forall>s \<in> set syms. kind s = Method \<longrightarrow> (\<exists>i j. closed_handler_at document i j s))
       \<and> (\<forall>k. k < lineCount document \<and> opens_handler (document ! k)
                \<and> (\<forall>l \<in> set (drop (Suc k) document). \<not> ends_handler l)
             \<longrightarrow> (\<exists>st0 st. initial_state document = Inr st0
                          \<and> scan_loop (take k document) 0 st0 = Inr st
                          \<and> syms = symbols st))"
  using handler_symbols_closed[OF assms] unclosed_handler_prefix[OF assms]
  by blast

theorem handler_symbol_only_when_closed_witness:
  "provideDocumentSymbols [''handler a'', ''end handler'', ''handler foo'', ''variable x''] =
     Inr [DocumentSymbol ''a'' None Method (span 0 0 1 11) (span 0 0 1 11) []]
   \<and> opens_handler ''handler foo'' \<and> \<not> ends_handler ''variable x''
   \<and> (\<exists>i j. closed_handler_at [''handler a'', ''end handler'', ''handler foo'', ''variable x''] i j
               (DocumentSymbol ''a'' None Method (span 0 0 1 11) (span 0 0 1 11) []))
   \<and> (\<exists>st0 st.
         initial_state [''handler a'', ''end handler'', ''handler foo'', ''variable x''] = Inr st0
         \<and> scan_loop (take 2 [''handler a'', ''end handler'', ''handler foo'', ''variable x''])
               0 st0 = Inr st
         \<and> [DocumentSymbol ''a'' None Method (span 0 0 1 11) (span 0 0 1 11) []] = symbols st)"
proof -
  define doc where "doc = [''handler a'', ''end handler'', ''handler foo'', ''variable x'']"
  define a where "a = DocumentSymbol ''a'' None Method (span 0 0 1 11) (span 0 0 1 11) []"
  have 1: "provideDocumentSymbols doc = Inr [a]"
    unfolding doc_def a_def by code_simp
  have 2: "opens_handler ''handler foo''"
    by code_simp
  have 3: "\<not> ends_handler ''variable x''"
    by code_simp
  have 4: "2 < lineCount doc \<and> opens_handler (doc ! 2)
           \<and> (\<forall>l \<in> set (drop (Suc 2) doc). \<not> ends_handler l)"
    using 2 3 by (simp add: doc_def lineCount_def)
  from handler_symbol_only_when_closed[OF 1] 4
  have "(\<exists>i j. closed_handler_at doc i j a)
      \<and> (\<exists>st0 st. initial_state doc = Inr st0 \<and> scan_loop (take 2 doc) 0 st0 = Inr st
                   \<and> [a] = symbols st)"
    by (simp add: a_def)
  with 1 2 3 show ?thesis
    unfolding doc_def a_def by blast
qed

text \<open>
  Claim C6, as the code has it. The symbol made for a line that opens a handler has
  the kind \<open>Method\<close>, with the \<open>private\<close> prefix and without it: the two kinds of the
  source, \<open>symbolkind_private_handler\<close> and \<open>symbolkind_public_handler\<close>, are both
  \<open>SymbolKind.Method\<close>. The scan of \<open>private handler bar\<close>, \<open>end handler\<close> gives the one
  symbol \<open>bar\<close> and that of \<open>handler foo\<close>, \<open>end handler\<close> the one symbol \<open>foo\<close>, both of
  kind \<open>Method\<close>.
\<close>

theorem handler_kind_is_Method:
  "(opens_handler (document ! i) \<and> scan_line document i st = Inr st'
      \<longrightarrow> kind (handler_Symbol st') = Method)
   \<and> symbolkind_private_handler = Method \<and> symbolkind_public_handler = Method
   \<and> provideDocumentSymbols [''private handler bar'', ''end handler''] =
        Inr [DocumentSymbol ''bar'' None Method (span 0 0 1 11) (span 0 0 1 11) []]
   \<and> provideDocumentSymbols [''handler foo'', ''end handler''] =
        Inr [DocumentSymbol ''foo'' None Method (span 0 0 1 11) (span 0 0 1 11) []]"
proof -
  have "provideDocumentSymbols [''private handler bar'', ''end handler''] =
        Inr [DocumentSymbol ''bar'' None Method (span 0 0 1 11) (span 0 0 1 11) []]"
    by code_simp
  moreover have "provideDocumentSymbols [''handler foo'', ''end handler''] =
        Inr [DocumentSymbol ''foo'' None Method (span 0 0 1 11) (span 0 0 1 11) []]"
    by code_simp
  ultimately show ?thesis
    using scan_line_opens[of document i st st']
    by (simp add: symbolkind_private_handler_def symbolkind_public_handler_def)
qed

theorem handler_kind_is_Method_witness:
  "opens_handler ([''private handler bar'', ''end handler''] ! 0)
   \<and> scan_line [''private handler bar'', ''end handler''] 0
        \<lparr>symbols = [],
         handler_Symbol = DocumentSymbol ''start'' (Some ''start'') Method
                            (span 1 0 1 11) (span 1 0 1 11) [],
         blockcomment_Symbol = DocumentSymbol ''start'' (Some ''start'') Method
                                 (span 1 0 1 11) (span 1 0 1 11) [],
         inside_handler = False, inside_blockcomment = False\<rparr>
      = Inr \<lparr>symbols = [],
             handler_Symbol = DocumentSymbol ''bar'' None Method
                                (span 0 0 0 19) (span 0 0 0 19) [],
             blockcomment_Symbol = DocumentSymbol ''start'' (Some ''start'') Method
                                     (span 1 0 1 11) (span 1 0 1 11) [],
             inside_handler = True, inside_blockcomment = False\<rparr>
   \<and> kind (handler_Symbol
        \<lparr>symbols = [],
         handler_Symbol = DocumentSymbol ''bar'' None Method
                            (span 0 0 0 19) (span 0 0 0 19) [],
         blockcomment_Symbol = DocumentSymbol ''start'' (Some ''start'') Method
                                 (span 1 0 1 11) (span 1 0 1 11) [],
         inside_handler = True, inside_blockcomment = False\<rparr>) = Method"
proof -
  define doc where "doc = [''private handler bar'', ''end handler'']"
  define S0 where "S0 = \<lparr>symbols = [],
         handler_Symbol = DocumentSymbol ''start'' (Some ''start'') Method
                            (span 1 0 1 11) (span 1 0 1 11) [],
         blockcomment_Symbol = DocumentSymbol ''start'' (Some ''start'') Method
                                 (span 1 0 1 11) (span 1 0 1 11) [],
         inside_handler = False, inside_blockcomment = False\<rparr>"
  define S1 where "S1 = \<lparr>symbols = [],
             handler_Symbol = DocumentSymbol ''bar'' None Method
                                (span 0 0 0 19) (span 0 0 0 19) [],
             blockcomment_Symbol = DocumentSymbol ''start'' (Some ''start'') Method
                                     (span 1 0 1 11) (span 1 0 1 11) [],
             inside_handler = True, inside_blockcomment = False\<rparr>"
  have 1: "opens_handler (doc ! 0)"
    unfolding doc_def by code_simp
  have 2: "scan_line doc 0 S0 = Inr S1"
    unfolding doc_def S0_def S1_def by code_simp
  from handler_kind_is_Method[of doc 0 S0 S1] 1 2 have "kind (handler_Symbol S1) = Method"
    by blast
  with 1 2 show ?thesis
    unfolding doc_def S0_def S1_def by blast
qed

text \<open>
  Claim C6 as stated fails: the kind of a private handler and the kind of a public
  handler are one value, not two.
\<close>

theorem private_and_public_handler_same_kind:
  "provideDocumentSymbols [''private handler bar'', ''end handler''] =
     Inr [DocumentSymbol ''bar'' None symbolkind_private_handler (span 0 0 1 11) (span 0 0 1 11) []]
   \<and> provideDocumentSymbols [''handler foo'', ''end handler''] =
     Inr [DocumentSymbol ''foo'' None symbolkind_public_handler (span 0 0 1 11) (span 0 0 1 11) []]
   \<and> symbolkind_private_handler = symbolkind_public_handler"
  by code_simp


section \<open>Properties of the configuration of the validation provider\<close>

text \<open>
  Claim C9, as the code has it. When the provider is paused, a reload of the settings
  leaves it paused exactly when the executable of the new configuration is the one
  the provider had before the reload (\<open>undefined\<close> twice counts as the same); so a
  reload clears the pause, and triggers of a \<open>livecodescript\<close> document in a trusted
  workspace with validation enabled run again, exactly when the executable changed.
\<close>

theorem reload_clears_pause_iff_executable_changed:
  assumes "pauseValidation this"
  shows "(pauseValidation (loadConfiguration enable newConfig this)
            \<longleftrightarrow> (case config this of None \<Rightarrow> None | Some c \<Rightarrow> executable c) = executable newConfig)
       \<and> (triggerValidate_proceeds (loadConfiguration enable newConfig this) languageId isTrusted
            \<longleftrightarrow> languageId = ''livecodescript'' \<and> enable \<and> isTrusted
                \<and> (case config this of None \<Rightarrow> None | Some c \<Rightarrow> executable c) \<noteq> executable newConfig)"
  using assms
  by (auto simp: loadConfiguration_def triggerValidate_proceeds_def Let_def)

theorem reload_clears_pause_witness:
  "pauseValidation
     \<lparr>validationEnabled = True, pauseValidation = True,
      config = Some \<lparr>executable = Some ''/opt/livecode/a'', executableIsUserDefined = Some True,
                      trigger = onSave\<rparr>,
      documentListener = Some onSave\<rparr>
   \<and> \<not> pauseValidation
       (loadConfiguration True
          \<lparr>executable = Some ''/opt/livecode/b'', executableIsUserDefined = Some True, trigger = onSave\<rparr>
          \<lparr>validationEnabled = True, pauseValidation = True,
           config = Some \<lparr>executable = Some ''/opt/livecode/a'', executableIsUserDefined = Some True,
                           trigger = onSave\<rparr>,
           documentListener = Some onSave\<rparr>)
   \<and> triggerValidate_proceeds
       (loadConfiguration True
          \<lparr>executable = Some ''/opt/livecode/b'', executableIsUserDefined = Some True, trigger = onSave\<rparr>
          \<lparr>validationEnabled = True, pauseValidation = True,
           config = Some \<lparr>executable = Some ''/opt/livecode/a'', executableIsUserDefined = Some True,
                           trigger = onSave\<rparr>,
           documentListener = Some onSave\<rparr>)
       ''livecodescript'' True"
  using reload_clears_pause_iff_executable_changed
    [of "\<lparr>validationEnabled = True, pauseValidation = True,
           config = Some \<lparr>executable = Some ''/opt/livecode/a'', executableIsUserDefined = Some True,
                           trigger = onSave\<rparr>,
           documentListener = Some onSave\<rparr>"
        True
        "\<lparr>executable = Some ''/opt/livecode/b'', executableIsUserDefined = Some True, trigger = onSave\<rparr>"
        "''livecodescript''" True]
  by simp

text \<open>
  Claim C9 as stated fails: after a failed spawn has paused the provider, a reload of
  the settings with the same executable leaves it paused, and a trigger returns
  without validating.
\<close>

theorem reload_with_same_executable_stays_paused:
  "pauseValidation
     (doValidate SpawnError
        (loadConfiguration True 
          \<lparr>executable = Some ''/opt/livecode/a'', executableIsUserDefined = Some True, trigger = onSave\<rparr>
           new_LivecodescriptValidationProvider))
   \<and> pauseValidation
        (loadConfiguration True 
          \<lparr>executable = Some ''/opt/livecode/a'', executableIsUserDefined = Some True, trigger = onSave\<rparr>
          
           (doValidate SpawnError
              (loadConfiguration True 
          \<lparr>executable = Some ''/opt/livecode/a'', executableIsUserDefined = Some True, trigger = onSave\<rparr>
           new_LivecodescriptValidationProvider)))
   \<and> \<not> triggerValidate_proceeds
        (loadConfiguration True 
          \<lparr>executable = Some ''/opt/livecode/a'', executableIsUserDefined = Some True, trigger = onSave\<rparr>
          
           (doValidate SpawnError
              (loadConfiguration True 
          \<lparr>executable = Some ''/opt/livecode/a'', executableIsUserDefined = Some True, trigger = onSave\<rparr>
           new_LivecodescriptValidationProvider)))
        ''livecodescript'' True"
  by (simp add: loadConfiguration_def doValidate_def triggerValidate_proceeds_def
      new_LivecodescriptValidationProvider_def Let_def)


end
